theory Spec2Isabelle
  imports Main
begin

section \<open>Fixed-point numeric model (cnn_accel.h)\<close>

text \<open>
  The accelerator works on the Vitis HLS types
  \<^verbatim>\<open>data_t = weight_t = ap_fixed<16, 8, AP_RND, AP_SAT>\<close> and
  \<^verbatim>\<open>acc_t = ap_fixed<32, 16, AP_RND, AP_SAT>\<close>.
  A value is represented by its raw two's-complement integer: a narrow value with raw
  integer \<open>r\<close> denotes \<open>r / 2^8\<close>, a wide value denotes \<open>r / 2^16\<close>.
  Arithmetic on \<^verbatim>\<open>ap_fixed\<close> operands is exact (the result type grows); quantisation
  (\<^verbatim>\<open>AP_RND\<close>: round to nearest, ties towards plus infinity) and overflow handling
  (\<^verbatim>\<open>AP_SAT\<close>: clamp to the representable range) happen when a result is stored into
  a variable of one of the two types. C \<^verbatim>\<open>int\<close> variables are modelled as unbounded
  integers (index arithmetic is assumed not to overflow 32 bits).
\<close>

definition ap_sat :: "nat \<Rightarrow> int \<Rightarrow> int" where
  "ap_sat w x =
     (if x > 2 ^ (w - 1) - 1 then 2 ^ (w - 1) - 1
      else if x < - (2 ^ (w - 1)) then - (2 ^ (w - 1))
      else x)"

definition ap_rnd :: "nat \<Rightarrow> int \<Rightarrow> int" where
  "ap_rnd n x = (x + 2 ^ n div 2) div 2 ^ n"

text \<open>\<^verbatim>\<open>data_t(x)\<close> for a wide \<open>x\<close>: drop 8 fractional bits, saturate to 16 bits.\<close>

definition data_of_acc :: "int \<Rightarrow> int" where
  "data_of_acc x = ap_sat 16 (ap_rnd 8 x)"

text \<open>
  A decimal literal with four digits after the point, given as its numerator over 10000,
  converted to \<^verbatim>\<open>data_t\<close>: \<open>floor (n * 256 / 10000 + 1/2)\<close>, saturated.
\<close>

definition data_of_dec4 :: "int \<Rightarrow> int" where
  "data_of_dec4 n = ap_sat 16 ((n * 512 + 10000) div 20000)"

text \<open>
  \<^verbatim>\<open>data_t(1.0 / n)\<close>: the reciprocal rounded to 8 fractional bits,
  \<open>floor (256 / n + 1/2)\<close>, saturated. For \<open>n = 0\<close> the C expression is plus infinity,
  which saturates.
\<close>

definition data_of_reciprocal :: "int \<Rightarrow> int" where
  "data_of_reciprocal n = (if n = 0 then 32767 else ap_sat 16 ((512 + n) div (2 * n)))"

text \<open>C integer division truncates towards zero; division by zero is undefined in C.\<close>

definition cdiv :: "int \<Rightarrow> int \<Rightarrow> int" where
  "cdiv a b = sgn a * sgn b * (\<bar>a\<bar> div \<bar>b\<bar>)"

text \<open>
  A C \<^verbatim>\<open>for (i = lo; i < hi; i++) s = body i s\<close> loop whose bounds do not change while
  it runs.
\<close>

definition for_loop :: "int \<Rightarrow> int \<Rightarrow> (int \<Rightarrow> 's \<Rightarrow> 's) \<Rightarrow> 's \<Rightarrow> 's" where
  "for_loop lo hi body s = fold body [lo..hi - 1] s"

text \<open>
  Memory reached through a pointer argument (feature maps, weights and batch-norm
  parameters in DDR) is a store from element offsets to raw values.
\<close>

type_synonym ddr = "int \<Rightarrow> int"

section \<open>Activation functions (activation.cpp)\<close>

definition leaky_relu_hw :: "int \<Rightarrow> int" where
  "leaky_relu_hw x = (if x > 0 then x else ap_sat 16 (x div 8))"

definition SIGMOID_LUT :: "int list" where
  "SIGMOID_LUT = map data_of_dec4
    [3, 4, 4, 5, 5, 6, 7, 8,
     9, 10, 11, 12, 14, 15, 17, 19,
     21, 24, 26, 29, 33, 37, 41, 45,
     50, 56, 62, 69, 76, 84, 94, 104,
     115, 127, 141, 155, 172, 190, 210, 232,
     256, 283, 312, 345, 380, 419, 462, 509,
     560, 616, 677, 744, 817, 896, 982, 1076,
     1178, 1288, 1407, 1536, 1675, 1824, 1984, 2156,
     2340, 2536, 2744, 2964, 3196, 3440, 3695, 3962,
     4239, 4526, 4822, 5125, 5434, 5748, 6065, 6382,
     6698, 7011, 7319, 7621, 7914, 8198, 8470, 8730,
     8976, 9208, 9426, 9628, 9814, 9985, 9990, 9993,
     9995, 9997, 9997, 9998, 9998, 9999, 9999, 9999,
     9999, 9999, 10000, 10000, 10000, 10000, 10000, 10000,
     10000, 10000, 10000, 10000, 10000, 10000, 10000, 10000,
     10000, 10000, 10000, 10000, 10000, 10000, 10000, 10000,
     10000, 10000, 10000, 10000, 10000, 10000, 10000, 10000,
     10000, 10000, 10000, 10000, 10000, 10000, 10000, 10000,
     10000, 10000, 10000, 10000, 10000, 10000, 10000, 10000,
     10000, 10000, 10000, 10000, 10000, 10000, 10000, 10000,
     10000, 10000, 10000, 10000, 10000, 10000, 10000, 10000,
     10000, 10000, 10000, 10000, 10000, 10000, 10000, 10000,
     10000, 10000, 10000, 10000, 10000, 10000, 10000, 10000,
     10000, 10000, 10000, 10000, 10000, 10000, 10000, 10000,
     10000, 10000, 10000, 10000, 10000, 10000, 10000, 10000,
     10000, 10000, 10000, 10000, 10000, 10000, 10000, 10000,
     10000, 10000, 10000, 10000, 10000, 10000, 10000, 10000,
     10000, 10000, 10000, 10000, 10000, 10000, 10000, 10000,
     10000, 10000, 10000, 10000, 10000, 10000, 10000, 10000,
     10000, 10000, 10000, 10000, 10000, 10000, 10000, 10000,
     10000, 10000, 10000, 10000, 10000, 10000, 10000, 10000,
     10000, 10000, 10000, 10000, 10000, 10000, 10000, 10000]"

text \<open>
  The raw constants of \<^verbatim>\<open>sigmoid_hw\<close>: \<^verbatim>\<open>data_t(-8)\<close> is \<open>-2048\<close>, \<^verbatim>\<open>data_t(8)\<close> is
  \<open>2048\<close>, \<^verbatim>\<open>data_t(7.9375)\<close> is \<open>2032\<close> and \<^verbatim>\<open>data_t(16)\<close> is \<open>4096\<close>.
\<close>

definition sigmoid_clamped :: "int \<Rightarrow> int" where
  "sigmoid_clamped x =
     (if x < - 2048 then - 2048
      else if x \<ge> 2048 then 2032
      else x)"

text \<open>
  \<^verbatim>\<open>ap_uint<8>((clamped + data_t(8)) * data_t(16))\<close>: the sum and the product are exact
  (the product has 16 fractional bits); the conversion to \<^verbatim>\<open>ap_uint<8>\<close> takes the integer
  part, truncating towards zero, and keeps its low 8 bits.
\<close>

definition sigmoid_index :: "int \<Rightarrow> int" where
  "sigmoid_index x = cdiv ((sigmoid_clamped x + 2048) * 4096) 65536 mod 256"

definition sigmoid_hw :: "int \<Rightarrow> int" where
  "sigmoid_hw x = SIGMOID_LUT ! nat (sigmoid_index x)"

text \<open>
  Feature maps are channel-major: element \<open>(c, r, col)\<close> of a tensor with \<open>h\<close> rows and
  \<open>w\<close> columns per channel is stored at offset \<open>c * h * w + r * w + col\<close>.
\<close>

definition fm_at :: "ddr \<Rightarrow> int \<Rightarrow> int \<Rightarrow> int \<Rightarrow> int \<Rightarrow> int \<Rightarrow> int" where
  "fm_at fm h w c r col = fm (c * h * w + r * w + col)"

section \<open>Pooling (pooling.cpp)\<close>

definition max4_hw :: "int \<Rightarrow> int \<Rightarrow> int \<Rightarrow> int \<Rightarrow> int" where
  "max4_hw a b c d =
     (let max_ab = (if a > b then a else b);
          max_cd = (if c > d then c else d)
      in if max_ab > max_cd then max_ab else max_cd)"

text \<open>
  \<^verbatim>\<open>maxpool2d_hw\<close> reads \<open>input\<close> and writes \<open>output\<close>; the two pointers are taken to
  address disjoint memory, so the input is a store that the function does not change.
\<close>

definition maxpool2d_hw :: "ddr \<Rightarrow> ddr \<Rightarrow> int \<Rightarrow> int \<Rightarrow> int \<Rightarrow> ddr" where
  "maxpool2d_hw input output channels in_h in_w =
     (let out_h = cdiv in_h 2;
          out_w = cdiv in_w 2
      in for_loop 0 channels (\<lambda>c.
           for_loop 0 out_h (\<lambda>oh.
             for_loop 0 out_w (\<lambda>ow output.
               let ih = oh * 2;
                   iw = ow * 2;
                   base_idx = c * in_h * in_w;
                   v00 = input (base_idx + ih * in_w + iw);
                   v01 = input (base_idx + ih * in_w + iw + 1);
                   v10 = input (base_idx + (ih + 1) * in_w + iw);
                   v11 = input (base_idx + (ih + 1) * in_w + iw + 1);
                   max_val = max4_hw v00 v01 v10 v11;
                   out_idx = c * out_h * out_w + oh * out_w + ow
               in output(out_idx := max_val))))
         output)"

text \<open>
  \<^verbatim>\<open>sum += input[idx]\<close> aligns the narrow operand to 16 fractional bits and saturates the
  sum to \<^verbatim>\<open>acc_t\<close>; \<^verbatim>\<open>data_t(sum * scale)\<close> drops 16 of the 24 fractional bits of the
  exact product.
\<close>

definition global_avgpool_hw :: "ddr \<Rightarrow> ddr \<Rightarrow> int \<Rightarrow> int \<Rightarrow> int \<Rightarrow> ddr" where
  "global_avgpool_hw input output channels height width =
     (let spatial_size = height * width;
          scale = data_of_reciprocal spatial_size
      in for_loop 0 channels (\<lambda>c output.
           let sum = for_loop 0 spatial_size (\<lambda>i sum.
                       let idx = c * spatial_size + i
                       in ap_sat 32 (sum + input idx * 256)) 0
           in output(c := ap_sat 16 (ap_rnd 16 (sum * scale))))
         output)"

section \<open>The pooling pass of the top level (cnn_accel.cpp, POOL_LOOP)\<close>

text \<open>The pass reads and writes the same buffer \<open>output_fm\<close>.\<close>

definition pool_pass :: "int \<Rightarrow> int \<Rightarrow> int \<Rightarrow> ddr \<Rightarrow> ddr" where
  "pool_pass out_channels out_height out_width output_fm =
     (let pool_height = cdiv out_height 2;
          pool_width = cdiv out_width 2
      in for_loop 0 out_channels (\<lambda>c.
           for_loop 0 pool_height (\<lambda>ph.
             for_loop 0 pool_width (\<lambda>pw output_fm.
               let base_idx = c * out_height * out_width + (ph * 2) * out_width + (pw * 2);
                   v00 = output_fm base_idx;
                   v01 = output_fm (base_idx + 1);
                   v10 = output_fm (base_idx + out_width);
                   v11 = output_fm (base_idx + out_width + 1);
                   max01 = (if v00 > v01 then v00 else v01);
                   max23 = (if v10 > v11 then v10 else v11);
                   max_val = (if max01 > max23 then max01 else max23);
                   pool_idx = c * pool_height * pool_width + ph * pool_width + pw
               in output_fm(pool_idx := max_val))))
         output_fm)"

section \<open>The tiled convolution engine (cnn_accel.cpp)\<close>

text \<open>
  The arguments of \<^verbatim>\<open>cnn_accelerator_top\<close> that configure a layer; the driver keeps them
  in a structure with the same fields.
\<close>

record layer_config =
  layer_type :: int
  in_channels :: int
  out_channels :: int
  in_height :: int
  in_width :: int
  kernel_size :: int
  stride :: int
  padding :: int

text \<open>
  The tile sizes are compile-time constants of the source (\<^verbatim>\<open>TILE_H\<close>, \<^verbatim>\<open>TILE_W\<close>,
  \<^verbatim>\<open>TILE_CH\<close>); the model takes them as a parameter, and \<open>zedboard_tiles\<close> holds the values
  the source defines. The sizes of the on-chip buffers derive from them as in the source.
\<close>

record tile_sizes =
  TILE_H :: int
  TILE_W :: int
  TILE_CH :: int

definition zedboard_tiles :: tile_sizes where
  "zedboard_tiles = \<lparr>TILE_H = 14, TILE_W = 14, TILE_CH = 32\<rparr>"

definition INPUT_TILE_SIZE :: "tile_sizes \<Rightarrow> int" where
  "INPUT_TILE_SIZE ts = TILE_CH ts * (TILE_H ts + 2) * (TILE_W ts + 2)"

definition OUTPUT_TILE_SIZE :: "tile_sizes \<Rightarrow> int" where
  "OUTPUT_TILE_SIZE ts = TILE_CH ts * TILE_H ts * TILE_W ts"

definition WEIGHT_BUF_SIZE :: "tile_sizes \<Rightarrow> int" where
  "WEIGHT_BUF_SIZE ts = TILE_CH ts * TILE_CH ts * 9"

text \<open>
  The static on-chip arrays are lists of a fixed length. C leaves an access outside an
  array undefined. In the model a write outside the array is dropped and a read outside
  it returns an unspecified value, so results are stated only for runs in which every
  access is inside its array.
\<close>

definition buf_write :: "int list \<Rightarrow> int \<Rightarrow> int \<Rightarrow> int list" where
  "buf_write buf i v = (if 0 \<le> i \<and> i < int (length buf) then buf[nat i := v] else buf)"

definition buf_read :: "int list \<Rightarrow> int \<Rightarrow> int" where
  "buf_read buf i = buf ! nat i"

definition layer_out_height :: "layer_config \<Rightarrow> int" where
  "layer_out_height cfg = cdiv (in_height cfg + 2 * padding cfg - kernel_size cfg) (stride cfg) + 1"

definition layer_out_width :: "layer_config \<Rightarrow> int" where
  "layer_out_width cfg = cdiv (in_width cfg + 2 * padding cfg - kernel_size cfg) (stride cfg) + 1"

text \<open>\<^verbatim>\<open>INIT_ACC\<close>\<close>

definition init_acc :: "int \<Rightarrow> int list \<Rightarrow> int list" where
  "init_acc tile_size acc_tile =
     for_loop 0 tile_size (\<lambda>i acc_tile. buf_write acc_tile i 0) acc_tile"

text \<open>\<^verbatim>\<open>LOAD_INPUT\<close>; the loop state is the pair of \<^verbatim>\<open>tile_idx\<close> and the buffer.\<close>

definition load_input ::
  "ddr \<Rightarrow> layer_config \<Rightarrow> int \<Rightarrow> int \<Rightarrow> int \<Rightarrow> int \<Rightarrow> int \<Rightarrow> int \<Rightarrow> int list \<Rightarrow> int list" where
  "load_input input_fm cfg ic_start ic_end ih_start ih_end iw_start iw_end input_tile =
     snd (for_loop ic_start ic_end (\<lambda>ic.
            for_loop ih_start ih_end (\<lambda>ih.
              for_loop iw_start iw_end (\<lambda>iw (tile_idx, input_tile).
                (tile_idx + 1,
                 (if ih \<ge> 0 \<and> ih < in_height cfg \<and> iw \<ge> 0 \<and> iw < in_width cfg
                  then (let ddr_idx = ic * in_height cfg * in_width cfg + ih * in_width cfg + iw
                        in buf_write input_tile tile_idx (input_fm ddr_idx))
                  else buf_write input_tile tile_idx 0)))))
          (0, input_tile))"

text \<open>\<^verbatim>\<open>LOAD_WEIGHTS\<close>\<close>

definition load_weights ::
  "ddr \<Rightarrow> layer_config \<Rightarrow> int \<Rightarrow> int \<Rightarrow> int \<Rightarrow> int \<Rightarrow> int list \<Rightarrow> int list" where
  "load_weights weights cfg oc_start oc_end ic_start ic_end weight_tile =
     (let ic_count = ic_end - ic_start
      in for_loop oc_start oc_end (\<lambda>oc.
           for_loop ic_start ic_end (\<lambda>ic.
             for_loop 0 (kernel_size cfg) (\<lambda>kh.
               for_loop 0 (kernel_size cfg) (\<lambda>kw weight_tile.
                 let w_ddr_idx = oc * in_channels cfg * kernel_size cfg * kernel_size cfg +
                                 ic * kernel_size cfg * kernel_size cfg +
                                 kh * kernel_size cfg + kw;
                     w_tile_idx = (oc - oc_start) * ic_count * kernel_size cfg * kernel_size cfg +
                                  (ic - ic_start) * kernel_size cfg * kernel_size cfg +
                                  kh * kernel_size cfg + kw
                 in buf_write weight_tile w_tile_idx (weights w_ddr_idx)))))
         weight_tile)"

text \<open>
  The three innermost loops of \<^verbatim>\<open>COMPUTE_TILE\<close>: the multiply-accumulate over the input
  channels of the tile and the kernel window, for one output element. The product of two
  narrow values is exact; \<^verbatim>\<open>sum += ...\<close> saturates to \<^verbatim>\<open>acc_t\<close>.
\<close>

definition tile_mac ::
  "layer_config \<Rightarrow> int \<Rightarrow> int \<Rightarrow> int \<Rightarrow> int list \<Rightarrow> int list \<Rightarrow> int \<Rightarrow> int \<Rightarrow> int \<Rightarrow> int \<Rightarrow> int" where
  "tile_mac cfg ic_count tile_ih tile_iw input_tile weight_tile oc oh ow sum0 =
     for_loop 0 ic_count (\<lambda>ic.
       for_loop 0 (kernel_size cfg) (\<lambda>kh.
         for_loop 0 (kernel_size cfg) (\<lambda>kw sum.
           let ih_local = oh * stride cfg + kh;
               iw_local = ow * stride cfg + kw;
               in_idx = ic * tile_ih * tile_iw + ih_local * tile_iw + iw_local;
               w_idx = oc * ic_count * kernel_size cfg * kernel_size cfg +
                       ic * kernel_size cfg * kernel_size cfg +
                       kh * kernel_size cfg + kw
           in ap_sat 32 (sum + buf_read input_tile in_idx * buf_read weight_tile w_idx))))
     sum0"

text \<open>\<^verbatim>\<open>COMPUTE_TILE\<close>\<close>

definition compute_tile ::
  "layer_config \<Rightarrow> int \<Rightarrow> int \<Rightarrow> int \<Rightarrow> int \<Rightarrow> int \<Rightarrow> int \<Rightarrow> int \<Rightarrow> int \<Rightarrow> int list \<Rightarrow> int list
     \<Rightarrow> int list \<Rightarrow> int list" where
  "compute_tile cfg oc_count oh_start oh_end ow_start ow_end ic_count tile_ih tile_iw
       input_tile weight_tile acc_tile =
     for_loop 0 oc_count (\<lambda>oc.
       for_loop 0 (oh_end - oh_start) (\<lambda>oh.
         for_loop 0 (ow_end - ow_start) (\<lambda>ow acc_tile.
           let sum = buf_read acc_tile (oc * (oh_end - oh_start) * (ow_end - ow_start) +
                                         oh * (ow_end - ow_start) + ow);
               sum = tile_mac cfg ic_count tile_ih tile_iw input_tile weight_tile oc oh ow sum
           in buf_write acc_tile (oc * (oh_end - oh_start) * (ow_end - ow_start) +
                                  oh * (ow_end - ow_start) + ow) sum)))
     acc_tile"

text \<open>
  Batch normalisation and activation of one accumulator value (the body of
  \<^verbatim>\<open>WRITE_OUTPUT\<close>). \<^verbatim>\<open>acc * scale_val + shift_val\<close> is exact with 24 fractional bits and is
  rounded and saturated into the \<^verbatim>\<open>acc_t\<close> variable \<^verbatim>\<open>bn_out\<close>; \<^verbatim>\<open>bn_out >> 3\<close> is an
  arithmetic shift of the raw value.
\<close>

definition bn_act :: "layer_config \<Rightarrow> int \<Rightarrow> int \<Rightarrow> int \<Rightarrow> int" where
  "bn_act cfg acc scale_val shift_val =
     (let bn_out = ap_sat 32 (ap_rnd 8 (acc * scale_val + shift_val * 65536))
      in if layer_type cfg \<noteq> 2
         then (if bn_out > 0 then data_of_acc bn_out else data_of_acc (bn_out div 8))
         else data_of_acc bn_out)"

text \<open>\<^verbatim>\<open>WRITE_OUTPUT\<close>; \<^verbatim>\<open>weight_t(1)\<close> is raw 256.\<close>

definition write_output ::
  "layer_config \<Rightarrow> ddr \<Rightarrow> ddr \<Rightarrow> int \<Rightarrow> int \<Rightarrow> int \<Rightarrow> int \<Rightarrow> int \<Rightarrow> int \<Rightarrow> int \<Rightarrow> int \<Rightarrow> int list \<Rightarrow> ddr \<Rightarrow> ddr" where
  "write_output cfg bn_scale bn_shift oc_start oc_count oh_start oh_end ow_start ow_end
       out_height out_width acc_tile output_fm =
     for_loop 0 oc_count (\<lambda>oc output_fm.
       let scale_val = (if layer_type cfg \<noteq> 2 then bn_scale (oc_start + oc) else 256);
           shift_val = (if layer_type cfg \<noteq> 2 then bn_shift (oc_start + oc) else 0)
       in for_loop 0 (oh_end - oh_start) (\<lambda>oh.
            for_loop 0 (ow_end - ow_start) (\<lambda>ow output_fm.
              let tile_idx = oc * (oh_end - oh_start) * (ow_end - ow_start) +
                             oh * (ow_end - ow_start) + ow;
                  result = bn_act cfg (buf_read acc_tile tile_idx) scale_val shift_val;
                  out_idx = (oc_start + oc) * out_height * out_width +
                            (oh_start + oh) * out_width +
                            (ow_start + ow)
              in output_fm(out_idx := result)))
          output_fm)
     output_fm"

text \<open>
  The state a run works on: the status register, the output feature map in DDR and the
  static tile buffers, which keep their contents from one call to the next. (The source
  also declares a buffer \<^verbatim>\<open>output_tile\<close> and a pointer \<^verbatim>\<open>control\<close>; it uses neither.)
  The field \<open>events\<close> is not part of the source: it records, in order, the status
  writes and the completion of the accumulator initialisation, of each input-channel
  tile, of each output-tile write and of the pooling pass.
\<close>

datatype event =
    StatusWrite int
  | AccZeroed int int int
  | AccTileAdded int int int int
  | TileWritten int int int
  | PoolPassDone

record engine =
  status :: int
  output_fm :: ddr
  input_tile :: "int list"
  weight_tile :: "int list"
  acc_tile :: "int list"
  events :: "event list"

text \<open>The body of \<^verbatim>\<open>IC_TILE_LOOP\<close>.\<close>

definition ic_tile_pass ::
  "tile_sizes \<Rightarrow> ddr \<Rightarrow> ddr \<Rightarrow> layer_config \<Rightarrow> int \<Rightarrow> int \<Rightarrow> int \<Rightarrow> int \<Rightarrow> int \<Rightarrow> int \<Rightarrow> int \<Rightarrow> int \<Rightarrow> int
     \<Rightarrow> int \<Rightarrow> engine \<Rightarrow> engine" where
  "ic_tile_pass ts input_fm weights cfg oc_t oh_t ow_t oc_start oc_end oh_start oh_end
       ow_start ow_end ic_t st =
     (let ic_start = ic_t * TILE_CH ts;
          ic_end = (if ic_start + TILE_CH ts > in_channels cfg then in_channels cfg
                    else ic_start + TILE_CH ts);
          ic_count = ic_end - ic_start;
          ih_start = oh_start * stride cfg - padding cfg;
          ih_end = (oh_end - 1) * stride cfg + kernel_size cfg - padding cfg;
          iw_start = ow_start * stride cfg - padding cfg;
          iw_end = (ow_end - 1) * stride cfg + kernel_size cfg - padding cfg;
          input_tile' = load_input input_fm cfg ic_start ic_end ih_start ih_end iw_start iw_end
                          (input_tile st);
          weight_tile' = load_weights weights cfg oc_start oc_end ic_start ic_end (weight_tile st);
          tile_ih = ih_end - ih_start;
          tile_iw = iw_end - iw_start;
          acc_tile' = compute_tile cfg (oc_end - oc_start) oh_start oh_end ow_start ow_end
                        ic_count tile_ih tile_iw input_tile' weight_tile' (acc_tile st)
      in st\<lparr>input_tile := input_tile', weight_tile := weight_tile', acc_tile := acc_tile',
             events := events st @ [AccTileAdded oc_t oh_t ow_t ic_t]\<rparr>)"

text \<open>The body of \<^verbatim>\<open>OW_TILE_LOOP\<close>: one output tile.\<close>

definition output_tile_pass ::
  "tile_sizes \<Rightarrow> ddr \<Rightarrow> ddr \<Rightarrow> ddr \<Rightarrow> ddr \<Rightarrow> layer_config \<Rightarrow> int \<Rightarrow> int \<Rightarrow> int \<Rightarrow> int \<Rightarrow> int \<Rightarrow> int \<Rightarrow> int
     \<Rightarrow> int \<Rightarrow> int \<Rightarrow> int \<Rightarrow> engine \<Rightarrow> engine" where
  "output_tile_pass ts input_fm weights bn_scale bn_shift cfg out_height out_width ic_tiles
       oc_t oc_start oc_end oh_t oh_start oh_end ow_t st =
     (let ow_start = ow_t * TILE_W ts;
          ow_end = (if ow_start + TILE_W ts > out_width then out_width else ow_start + TILE_W ts);
          oc_count = oc_end - oc_start;
          tile_size = oc_count * (oh_end - oh_start) * (ow_end - ow_start);
          st1 = st\<lparr>acc_tile := init_acc tile_size (acc_tile st),
                    events := events st @ [AccZeroed oc_t oh_t ow_t]\<rparr>;
          st2 = for_loop 0 ic_tiles
                  (ic_tile_pass ts input_fm weights cfg oc_t oh_t ow_t oc_start oc_end
                     oh_start oh_end ow_start ow_end) st1
      in st2\<lparr>output_fm := write_output cfg bn_scale bn_shift oc_start oc_count
                              oh_start oh_end ow_start ow_end out_height out_width
                              (acc_tile st2) (output_fm st2),
              events := events st2 @ [TileWritten oc_t oh_t ow_t]\<rparr>)"

text \<open>The main processing loop (\<^verbatim>\<open>OC_TILE_LOOP\<close>, \<^verbatim>\<open>OH_TILE_LOOP\<close>, \<^verbatim>\<open>OW_TILE_LOOP\<close>).\<close>

definition conv_tiles ::
  "tile_sizes \<Rightarrow> ddr \<Rightarrow> ddr \<Rightarrow> ddr \<Rightarrow> ddr \<Rightarrow> layer_config \<Rightarrow> int \<Rightarrow> int \<Rightarrow> engine \<Rightarrow> engine" where
  "conv_tiles ts input_fm weights bn_scale bn_shift cfg out_height out_width st =
     (let oc_tiles = cdiv (out_channels cfg + TILE_CH ts - 1) (TILE_CH ts);
          ic_tiles = cdiv (in_channels cfg + TILE_CH ts - 1) (TILE_CH ts);
          oh_tiles = cdiv (out_height + TILE_H ts - 1) (TILE_H ts);
          ow_tiles = cdiv (out_width + TILE_W ts - 1) (TILE_W ts)
      in for_loop 0 oc_tiles (\<lambda>oc_t.
           let oc_start = oc_t * TILE_CH ts;
               oc_end = (if oc_start + TILE_CH ts > out_channels cfg then out_channels cfg
                         else oc_start + TILE_CH ts)
           in for_loop 0 oh_tiles (\<lambda>oh_t.
                let oh_start = oh_t * TILE_H ts;
                    oh_end = (if oh_start + TILE_H ts > out_height then out_height
                              else oh_start + TILE_H ts)
                in for_loop 0 ow_tiles
                     (output_tile_pass ts input_fm weights bn_scale bn_shift cfg
                        out_height out_width ic_tiles oc_t oc_start oc_end oh_t oh_start oh_end)))
         st)"

text \<open>
  \<^verbatim>\<open>cnn_accelerator_top\<close>. The division by \<^verbatim>\<open>stride\<close> is undefined in C when the stride
  is zero: the model then has no result.
\<close>

definition cnn_accelerator_top ::
  "tile_sizes \<Rightarrow> ddr \<Rightarrow> ddr \<Rightarrow> ddr \<Rightarrow> ddr \<Rightarrow> layer_config \<Rightarrow> engine \<Rightarrow> engine option" where
  "cnn_accelerator_top ts input_fm weights bn_scale bn_shift cfg st =
     (if stride cfg = 0 then None
      else
        let st1 = st\<lparr>status := 1, events := events st @ [StatusWrite 1]\<rparr>;
            st2 = conv_tiles ts input_fm weights bn_scale bn_shift cfg
                    (layer_out_height cfg) (layer_out_width cfg) st1;
            st3 = (if layer_type cfg = 1
                   then st2\<lparr>output_fm := pool_pass (out_channels cfg) (layer_out_height cfg)
                                              (layer_out_width cfg) (output_fm st2),
                            events := events st2 @ [PoolPassDone]\<rparr>
                   else st2)
        in Some (st3\<lparr>status := 0, events := events st3 @ [StatusWrite 0]\<rparr>))"

section \<open>Reference: direct convolution in fixed point\<close>

text \<open>
  The non-tiled convolution the tiled engine is compared with: every output element is
  the sum, over all input channels and kernel positions in this order, of input times
  weight, accumulated in \<^verbatim>\<open>acc_t\<close>; positions outside the input are skipped (they
  contribute zero). \<open>conv_mac_range\<close> is the sum over the channels \<open>ic_lo \<le> ic < ic_hi\<close>
  added to \<open>sum0\<close>.
\<close>

definition conv_mac_range ::
  "ddr \<Rightarrow> ddr \<Rightarrow> layer_config \<Rightarrow> int \<Rightarrow> int \<Rightarrow> int \<Rightarrow> int \<Rightarrow> int \<Rightarrow> int \<Rightarrow> int" where
  "conv_mac_range input_fm weights cfg oc oh ow ic_lo ic_hi sum0 =
     for_loop ic_lo ic_hi (\<lambda>ic.
       for_loop 0 (kernel_size cfg) (\<lambda>kh.
         for_loop 0 (kernel_size cfg) (\<lambda>kw sum.
           let ih = oh * stride cfg + kh - padding cfg;
               iw = ow * stride cfg + kw - padding cfg
           in if ih \<ge> 0 \<and> ih < in_height cfg \<and> iw \<ge> 0 \<and> iw < in_width cfg
              then ap_sat 32 (sum +
                     input_fm (ic * in_height cfg * in_width cfg + ih * in_width cfg + iw) *
                     weights (oc * in_channels cfg * kernel_size cfg * kernel_size cfg +
                              ic * kernel_size cfg * kernel_size cfg +
                              kh * kernel_size cfg + kw))
              else sum)))
     sum0"

definition conv_direct_acc :: "ddr \<Rightarrow> ddr \<Rightarrow> layer_config \<Rightarrow> int \<Rightarrow> int \<Rightarrow> int \<Rightarrow> int" where
  "conv_direct_acc input_fm weights cfg oc oh ow =
     conv_mac_range input_fm weights cfg oc oh ow 0 (in_channels cfg) 0"

text \<open>
  The output element \<open>(oc, oh, ow)\<close> of the reference: the direct sum, normalised and
  activated as the engine does for a finished accumulator value.
\<close>

definition conv_direct_out ::
  "ddr \<Rightarrow> ddr \<Rightarrow> ddr \<Rightarrow> ddr \<Rightarrow> layer_config \<Rightarrow> int \<Rightarrow> int \<Rightarrow> int \<Rightarrow> int" where
  "conv_direct_out input_fm weights bn_scale bn_shift cfg oc oh ow =
     bn_act cfg (conv_direct_acc input_fm weights cfg oc oh ow)
       (if layer_type cfg \<noteq> 2 then bn_scale oc else 256)
       (if layer_type cfg \<noteq> 2 then bn_shift oc else 0)"

text \<open>
  The tile sizes fit the on-chip buffers for a layer: the largest input tile (channels
  of one input-channel tile times the halo-extended window of one spatial tile) fits
  \<^verbatim>\<open>input_tile\<close>, and the largest weight block fits \<^verbatim>\<open>weight_tile\<close>.
\<close>

definition resource_ok :: "tile_sizes \<Rightarrow> layer_config \<Rightarrow> bool" where
  "resource_ok ts cfg =
     (let th = min (TILE_H ts) (layer_out_height cfg);
          tw = min (TILE_W ts) (layer_out_width cfg);
          ci = min (TILE_CH ts) (in_channels cfg);
          co = min (TILE_CH ts) (out_channels cfg)
      in 0 < TILE_H ts \<and> 0 < TILE_W ts \<and> 0 < TILE_CH ts
         \<and> ci * ((th - 1) * stride cfg + kernel_size cfg) * ((tw - 1) * stride cfg + kernel_size cfg)
             \<le> INPUT_TILE_SIZE ts
         \<and> co * ci * kernel_size cfg * kernel_size cfg \<le> WEIGHT_BUF_SIZE ts)"

text \<open>
  The layer configurations the results cover: a positive stride and non-negative kernel
  size and input-channel count (the configurations the source documents, kernel 1 or 3
  and stride 1 or 2, are among them).
\<close>

definition config_ok :: "layer_config \<Rightarrow> bool" where
  "config_ok cfg = (0 < stride cfg \<and> 0 \<le> kernel_size cfg \<and> 0 \<le> in_channels cfg)"

text \<open>The static buffers have the sizes the source declares.\<close>

definition buffers_ok :: "tile_sizes \<Rightarrow> engine \<Rightarrow> bool" where
  "buffers_ok ts st =
     (int (length (input_tile st)) = INPUT_TILE_SIZE ts
      \<and> int (length (weight_tile st)) = WEIGHT_BUF_SIZE ts
      \<and> int (length (acc_tile st)) = OUTPUT_TILE_SIZE ts)"

text \<open>
  An invariant for loops that fill a buffer cell by cell: \<open>xs\<close> arose from \<open>xs0\<close> by
  writing \<open>M x\<close> at offset \<open>pos x\<close> for every coordinate \<open>x\<close> in the range \<open>R\<close> whose
  offset is below \<open>k\<close>; the cells from \<open>k\<close> on are those of \<open>xs0\<close>.
\<close>

definition fill_inv ::
  "('c \<Rightarrow> bool) \<Rightarrow> ('c \<Rightarrow> int) \<Rightarrow> ('c \<Rightarrow> int) \<Rightarrow> int list \<Rightarrow> int \<Rightarrow> int list \<Rightarrow> bool" where
  "fill_inv R pos M xs0 k xs =
     (length xs = length xs0
      \<and> (\<forall>j. k \<le> j \<longrightarrow> buf_read xs j = buf_read xs0 j)
      \<and> (\<forall>x. R x \<and> pos x < k \<longrightarrow> buf_read xs (pos x) = M x))"

text \<open>
  An invariant for loops that write into DDR, one element per iteration: \<open>s\<close> arose from
  \<open>s0\<close> by writing \<open>M x\<close> at offset \<open>addr x\<close> for every coordinate \<open>x\<close> in the range \<open>R\<close>
  whose iteration number \<open>pos x\<close> is below \<open>k\<close>; offsets that are no \<open>addr x\<close> are
  untouched.
\<close>

definition scatter_inv ::
  "('c \<Rightarrow> bool) \<Rightarrow> ('c \<Rightarrow> int) \<Rightarrow> ('c \<Rightarrow> int) \<Rightarrow> ('c \<Rightarrow> int) \<Rightarrow> ddr \<Rightarrow> int \<Rightarrow> ddr \<Rightarrow> bool" where
  "scatter_inv R pos addr M s0 k s =
     ((\<forall>x. R x \<and> pos x < k \<longrightarrow> s (addr x) = M x)
      \<and> (\<forall>j. (\<forall>x. R x \<longrightarrow> addr x \<noteq> j) \<longrightarrow> s j = s0 j))"

text \<open>
  The accumulator tile of the output tile \<open>[oc_start, oc_end) x [oh_start, oh_end) x
  [ow_start, ow_end)\<close> holds, in every entry, the partial sum of the convolution over the
  input channels below \<open>ic_hi\<close>.
\<close>

definition acc_holds ::
  "ddr \<Rightarrow> ddr \<Rightarrow> layer_config \<Rightarrow> int \<Rightarrow> int \<Rightarrow> int \<Rightarrow> int \<Rightarrow> int \<Rightarrow> int \<Rightarrow> int \<Rightarrow> int list \<Rightarrow> bool" where
  "acc_holds input_fm weights cfg oc_start oc_end oh_start oh_end ow_start ow_end ic_hi acc =
     (\<forall>oc oh ow. 0 \<le> oc \<and> oc < oc_end - oc_start \<and> 0 \<le> oh \<and> oh < oh_end - oh_start
          \<and> 0 \<le> ow \<and> ow < ow_end - ow_start
        \<longrightarrow> buf_read acc (oc * (oh_end - oh_start) * (ow_end - ow_start) + oh * (ow_end - ow_start) + ow)
            = conv_mac_range input_fm weights cfg (oc_start + oc) (oh_start + oh) (ow_start + ow) 0 ic_hi 0)"

section \<open>The sigmoid lookup\<close>

lemma cdiv_nonneg: "0 \<le> a \<Longrightarrow> 0 < b \<Longrightarrow> cdiv a b = a div b"
  by (cases "a = 0") (simp_all add: cdiv_def)

lemma length_SIGMOID_LUT: "length SIGMOID_LUT = 256"
  by (simp add: SIGMOID_LUT_def)

lemma sigmoid_clamped_range: "- 2048 \<le> sigmoid_clamped x \<and> sigmoid_clamped x < 2048"
  by (simp add: sigmoid_clamped_def)

lemma sigmoid_index_eq: "sigmoid_index x = (sigmoid_clamped x + 2048) div 16"
proof -
  have r: "- 2048 \<le> sigmoid_clamped x" "sigmoid_clamped x < 2048"
    using sigmoid_clamped_range [of x] by simp_all
  have "cdiv ((sigmoid_clamped x + 2048) * 4096) 65536 = ((sigmoid_clamped x + 2048) * 4096) div 65536"
    using r by (intro cdiv_nonneg) simp_all
  also have "\<dots> = (sigmoid_clamped x + 2048) div 16"
    by simp
  finally have c: "cdiv ((sigmoid_clamped x + 2048) * 4096) 65536 = (sigmoid_clamped x + 2048) div 16" .
  have "0 \<le> (sigmoid_clamped x + 2048) div 16" "(sigmoid_clamped x + 2048) div 16 < 256"
    using r by simp_all
  then show ?thesis
    unfolding sigmoid_index_def c by (simp add: mod_pos_pos_trivial)
qed

text \<open>
  C6. \<^verbatim>\<open>sigmoid_hw\<close> clamps its input to \<open>[-8, 8)\<close> (raw \<open>[-2048, 2048)\<close>), computes the
  index \<open>(clamp x + 8) * 16\<close> (raw: \<open>(clamped + 2048) div 16\<close>), which lies in \<open>[0, 255]\<close>,
  and returns that entry of the 256-entry table; inputs \<open>\<le> -8\<close> use index 0 and inputs
  \<open>\<ge> 8\<close> use index 255.
\<close>

theorem sigmoid_hw_lut:
  "- 2048 \<le> sigmoid_clamped x \<and> sigmoid_clamped x < 2048
   \<and> (- 2048 \<le> x \<and> x < 2048 \<longrightarrow> sigmoid_clamped x = x)
   \<and> sigmoid_index x = (sigmoid_clamped x + 2048) div 16
   \<and> 0 \<le> sigmoid_index x \<and> sigmoid_index x \<le> 255
   \<and> length SIGMOID_LUT = 256
   \<and> sigmoid_hw x = SIGMOID_LUT ! nat (sigmoid_index x)
   \<and> (x \<le> - 2048 \<longrightarrow> sigmoid_index x = 0 \<and> sigmoid_hw x = SIGMOID_LUT ! 0)
   \<and> (x \<ge> 2048 \<longrightarrow> sigmoid_index x = 255 \<and> sigmoid_hw x = SIGMOID_LUT ! 255)"
proof -
  have r: "- 2048 \<le> sigmoid_clamped x" "sigmoid_clamped x < 2048"
    using sigmoid_clamped_range [of x] by simp_all
  have i: "sigmoid_index x = (sigmoid_clamped x + 2048) div 16"
    by (rule sigmoid_index_eq)
  have b: "0 \<le> sigmoid_index x" "sigmoid_index x \<le> 255"
    using r unfolding i by simp_all
  have lo: "x \<le> - 2048 \<Longrightarrow> sigmoid_index x = 0"
    unfolding i by (simp add: sigmoid_clamped_def)
  have hi: "x \<ge> 2048 \<Longrightarrow> sigmoid_index x = 255"
    unfolding i by (simp add: sigmoid_clamped_def)
  have idn: "- 2048 \<le> x \<and> x < 2048 \<longrightarrow> sigmoid_clamped x = x"
    by (simp add: sigmoid_clamped_def)
  show ?thesis
    using r i b lo hi idn by (simp add: sigmoid_hw_def length_SIGMOID_LUT)
qed

theorem sigmoid_hw_lut_witness:
  "sigmoid_clamped (- 3000) = - 2048 \<and> sigmoid_index (- 3000) = 0
   \<and> sigmoid_hw (- 3000) = SIGMOID_LUT ! 0
   \<and> sigmoid_clamped 5000 = 2032 \<and> sigmoid_index 5000 = 255
   \<and> sigmoid_hw 5000 = SIGMOID_LUT ! 255
   \<and> sigmoid_clamped 100 = 100 \<and> sigmoid_index 100 = 134"
  using sigmoid_hw_lut [of "- 3000"] sigmoid_hw_lut [of 5000] sigmoid_hw_lut [of 100]
  by (simp add: sigmoid_clamped_def)

lemma for_loop_empty: "hi \<le> lo \<Longrightarrow> for_loop lo hi body s = s"
  by (simp add: for_loop_def)

lemma for_loop_snoc: "lo \<le> hi \<Longrightarrow> for_loop lo (hi + 1) body s = body hi (for_loop lo hi body s)"
  by (simp add: for_loop_def upto_rec2)

lemma for_loop_cons: "lo < hi \<Longrightarrow> for_loop lo hi body s = for_loop (lo + 1) hi body (body lo s)"
  by (simp add: for_loop_def upto_rec1)

lemma for_loop_inv:
  assumes "P lo s"
    and "\<And>i s. lo \<le> i \<Longrightarrow> i < hi \<Longrightarrow> P i s \<Longrightarrow> P (i + 1) (body i s)"
    and "lo \<le> hi"
  shows "P hi (for_loop lo hi body s)"
proof -
  have "\<And>h. lo \<le> h \<Longrightarrow> h \<le> hi \<Longrightarrow> nat (h - lo) = n \<Longrightarrow> P h (for_loop lo h body s)" for n
  proof (induction n)
    case 0
    then have "h = lo" by simp
    then show ?case using assms(1) by (simp add: for_loop_empty)
  next
    case (Suc n)
    then have h: "lo \<le> h - 1" "h - 1 \<le> hi" "nat (h - 1 - lo) = n" "h - 1 < hi" by simp_all
    have "P (h - 1) (for_loop lo (h - 1) body s)"
      using Suc.IH [OF h(1,2,3)] .
    then have "P (h - 1 + 1) (body (h - 1) (for_loop lo (h - 1) body s))"
      using assms(2) h by blast
    moreover have "for_loop lo (h - 1 + 1) body s = body (h - 1) (for_loop lo (h - 1) body s)"
      using h(1) by (rule for_loop_snoc)
    ultimately show ?case by simp
  qed
  then show ?thesis using assms(3) by blast
qed

lemma for_loop_pres:
  assumes "P s"
    and "\<And>i s. lo \<le> i \<Longrightarrow> i < hi \<Longrightarrow> P s \<Longrightarrow> P (body i s)"
  shows "P (for_loop lo hi body s)"
proof (cases "lo \<le> hi")
  case True
  show ?thesis
    using for_loop_inv [where P = "\<lambda>i. P", OF assms(1) _ True] assms(2) by blast
next
  case False
  then show ?thesis using assms(1) by (simp add: for_loop_empty)
qed

lemma for_loop_cong:
  assumes "\<And>i s. lo \<le> i \<Longrightarrow> i < hi \<Longrightarrow> P s \<Longrightarrow> f i s = g i s"
    and "\<And>i s. lo \<le> i \<Longrightarrow> i < hi \<Longrightarrow> P s \<Longrightarrow> P (f i s)"
    and "P s"
  shows "for_loop lo hi f s = for_loop lo hi g s"
proof (cases "lo \<le> hi")
  case True
  have "h \<le> hi \<longrightarrow> P (for_loop lo h f s) \<and> for_loop lo h f s = for_loop lo h g s"
    if "lo \<le> h" for h
    using that
  proof (induction h rule: int_ge_induct)
    case base
    then show ?case using assms(3) by (simp add: for_loop_empty)
  next
    case (step h)
    show ?case
    proof
      assume a: "h + 1 \<le> hi"
      then have "h \<le> hi" by simp
      from step.IH [rule_format, OF this]
      have ih: "P (for_loop lo h f s)" "for_loop lo h f s = for_loop lo h g s"
        by blast+
      have lt: "h < hi" using a by simp
      have "f h (for_loop lo h f s) = g h (for_loop lo h f s)"
        using assms(1) [OF step.hyps lt ih(1)] .
      moreover have "P (f h (for_loop lo h f s))"
        using assms(2) [OF step.hyps lt ih(1)] .
      ultimately show "P (for_loop lo (h + 1) f s) \<and> for_loop lo (h + 1) f s = for_loop lo (h + 1) g s"
        using ih(2) by (simp add: for_loop_snoc [OF step.hyps])
    qed
  qed
  then show ?thesis using True by blast
next
  case False
  then show ?thesis by (simp add: for_loop_empty)
qed

lemma for_loop_split:
  assumes "lo \<le> mid" "mid \<le> hi"
  shows "for_loop lo hi body s = for_loop mid hi body (for_loop lo mid body s)"
  using assms(2)
proof (induction hi rule: int_ge_induct)
  case base
  show ?case by (simp add: for_loop_empty)
next
  case (step h)
  have "lo \<le> h" using assms(1) step.hyps by simp
  then show ?case
    using step by (simp add: for_loop_snoc)
qed

lemma for_loop_shift: "for_loop lo hi body s = for_loop 0 (hi - lo) (\<lambda>i. body (lo + i)) s"
proof (cases "lo \<le> hi")
  case True
  then show ?thesis
  proof (induction hi rule: int_ge_induct)
    case base
    show ?case by (simp add: for_loop_empty)
  next
    case (step h)
    have "for_loop 0 (h + 1 - lo) (\<lambda>i. body (lo + i)) s
        = for_loop 0 (h - lo + 1) (\<lambda>i. body (lo + i)) s"
      by (simp add: algebra_simps)
    also have "\<dots> = body (lo + (h - lo)) (for_loop 0 (h - lo) (\<lambda>i. body (lo + i)) s)"
      using step.hyps by (intro for_loop_snoc) simp
    finally show ?case
      using step by (simp add: for_loop_snoc)
  qed
next
  case False
  then show ?thesis by (simp add: for_loop_empty)
qed

lemma flat2_lt:
  fixes b c B C :: int
  assumes "b < B" "0 \<le> c" "c < C"
  shows "b * C + c < B * C"
proof -
  have "(b + 1) * C \<le> B * C"
    using assms by (intro mult_right_mono) simp_all
  then show ?thesis using assms by (simp add: algebra_simps)
qed

lemma flat2_nonneg:
  fixes b c C :: int
  shows "0 \<le> b \<Longrightarrow> 0 \<le> c \<Longrightarrow> 0 \<le> C \<Longrightarrow> 0 \<le> b * C + c"
  by simp

lemma flat2_inj:
  fixes b c b' c' C :: int
  assumes "0 \<le> c" "c < C" "0 \<le> c'" "c' < C" "b * C + c = b' * C + c'"
  shows "b = b' \<and> c = c'"
proof -
  have "b = b'"
  proof (rule ccontr)
    assume "b \<noteq> b'"
    then consider "b < b'" | "b' < b" by linarith
    then show False
    proof cases
      case 1
      then have "b * C + c < b' * C" using assms by (intro flat2_lt) simp_all
      then show False using assms by simp
    next
      case 2
      then have "b' * C + c' < b * C" using assms by (intro flat2_lt) simp_all
      then show False using assms by simp
    qed
  qed
  then show ?thesis using assms by simp
qed

lemma flat3_lt:
  fixes a b c A B C :: int
  assumes "a < A" "0 \<le> b" "b < B" "0 \<le> c" "c < C"
  shows "a * B * C + b * C + c < A * B * C"
proof -
  have 1: "b * C + c < B * C" using assms by (intro flat2_lt) simp_all
  have 2: "0 \<le> b * C + c" using assms by simp
  have "a * (B * C) + (b * C + c) < A * (B * C)"
    using assms(1) 2 1 by (rule flat2_lt)
  then show ?thesis by (simp add: algebra_simps)
qed

lemma flat3_inj:
  fixes a b c a' b' c' B C :: int
  assumes "0 \<le> b" "b < B" "0 \<le> c" "c < C" "0 \<le> b'" "b' < B" "0 \<le> c'" "c' < C"
    and "a * B * C + b * C + c = a' * B * C + b' * C + c'"
  shows "a = a' \<and> b = b' \<and> c = c'"
proof -
  have 1: "b * C + c < B * C" "b' * C + c' < B * C" using assms by (auto intro: flat2_lt)
  have 2: "0 \<le> b * C + c" "0 \<le> b' * C + c'" using assms by simp_all
  have "a * (B * C) + (b * C + c) = a' * (B * C) + (b' * C + c')"
    using assms(9) by (simp add: algebra_simps)
  from flat2_inj [OF 2(1) 1(1) 2(2) 1(2) this]
  have "a = a'" "b * C + c = b' * C + c'" by simp_all
  moreover from flat2_inj [OF assms(3,4,7,8) this(2)] have "b = b'" "c = c'" by simp_all
  ultimately show ?thesis by simp
qed

lemma for_loop3_inv:
  assumes "0 \<le> A" "0 \<le> B" "0 \<le> C"
    and "Inv 0 s"
    and step: "\<And>a b c s. 0 \<le> a \<Longrightarrow> a < A \<Longrightarrow> 0 \<le> b \<Longrightarrow> b < B \<Longrightarrow> 0 \<le> c \<Longrightarrow> c < C
         \<Longrightarrow> Inv (a * B * C + b * C + c) s \<Longrightarrow> Inv (a * B * C + b * C + c + 1) (body a b c s)"
  shows "Inv (A * B * C) (for_loop 0 A (\<lambda>a. for_loop 0 B (\<lambda>b. for_loop 0 C (body a b))) s)"
proof -
  have inner: "Inv (a * B * C + (b + 1) * C) (for_loop 0 C (body a b) t)"
    if "0 \<le> a" "a < A" "0 \<le> b" "b < B" "Inv (a * B * C + b * C) t" for a b t
  proof -
    have eq: "a * B * C + (b + 1) * C = a * B * C + b * C + C"
      by (simp add: algebra_simps)
    show ?thesis unfolding eq
    proof (rule for_loop_inv [where P = "\<lambda>c. Inv (a * B * C + b * C + c)"])
      show "Inv (a * B * C + b * C + 0) t" using that by simp
      show "0 \<le> C" by (rule assms)
      fix i u assume "0 \<le> i" "i < C" "Inv (a * B * C + b * C + i) u"
      then have "Inv (a * B * C + b * C + i + 1) (body a b i u)"
        using step that by blast
      then show "Inv (a * B * C + b * C + (i + 1)) (body a b i u)"
        by (simp add: add.assoc)
    qed
  qed
  have middle: "Inv ((a + 1) * B * C) (for_loop 0 B (\<lambda>b. for_loop 0 C (body a b)) t)"
    if "0 \<le> a" "a < A" "Inv (a * B * C) t" for a t
  proof -
    have eq: "(a + 1) * B * C = a * B * C + B * C"
      by (simp add: algebra_simps)
    show ?thesis unfolding eq
    proof (rule for_loop_inv [where P = "\<lambda>b. Inv (a * B * C + b * C)"])
      show "Inv (a * B * C + 0 * C) t" using that by simp
      show "0 \<le> B" by (rule assms)
      fix i u assume "0 \<le> i" "i < B" "Inv (a * B * C + i * C) u"
      then show "Inv (a * B * C + (i + 1) * C) (for_loop 0 C (body a i) u)"
        using inner that by blast
    qed
  qed
  show ?thesis
  proof (rule for_loop_inv [where P = "\<lambda>a. Inv (a * B * C)"])
    show "Inv (0 * B * C) s" using assms(4) by simp
    show "0 \<le> A" by (rule assms)
    fix i u assume "0 \<le> i" "i < A" "Inv (i * B * C) u"
    then show "Inv ((i + 1) * B * C) (for_loop 0 B (\<lambda>b. for_loop 0 C (body i b)) u)"
      using middle by blast
  qed
qed

lemma flat3_nonneg:
  fixes a b c B C :: int
  assumes "0 \<le> a" "0 \<le> b" "0 \<le> c" "0 \<le> B" "0 \<le> C"
  shows "0 \<le> a * B * C + b * C + c"
  using assms by (intro add_nonneg_nonneg mult_nonneg_nonneg) simp_all

lemma rowmajor_fill:
  fixes body :: "int \<Rightarrow> int \<Rightarrow> int \<Rightarrow> ddr \<Rightarrow> ddr"
  assumes nn: "0 \<le> A" "0 \<le> B" "0 \<le> C"
    and step: "\<And>a b c s. 0 \<le> a \<Longrightarrow> a < A \<Longrightarrow> 0 \<le> b \<Longrightarrow> b < B \<Longrightarrow> 0 \<le> c \<Longrightarrow> c < C
         \<Longrightarrow> (\<forall>j. a * B * C + b * C + c \<le> j \<longrightarrow> s j = s0 j)
         \<Longrightarrow> body a b c s = s(a * B * C + b * C + c := M a b c)"
  defines "res \<equiv> for_loop 0 A (\<lambda>a. for_loop 0 B (\<lambda>b. for_loop 0 C (body a b))) s0"
  shows "(\<forall>a b c. 0 \<le> a \<and> a < A \<and> 0 \<le> b \<and> b < B \<and> 0 \<le> c \<and> c < C
            \<longrightarrow> res (a * B * C + b * C + c) = M a b c)
         \<and> (\<forall>j. j < 0 \<or> A * B * C \<le> j \<longrightarrow> res j = s0 j)"
proof -
  define Inv where "Inv k s \<longleftrightarrow>
      (\<forall>j. k \<le> j \<or> j < 0 \<longrightarrow> s j = s0 j)
    \<and> (\<forall>a b c. 0 \<le> a \<and> a < A \<and> 0 \<le> b \<and> b < B \<and> 0 \<le> c \<and> c < C \<and> a * B * C + b * C + c < k
          \<longrightarrow> s (a * B * C + b * C + c) = M a b c)" for k s
  have init: "Inv 0 s0"
  proof -
    have "\<not> a * B * C + b * C + c < 0"
      if "0 \<le> a" "a < A" "0 \<le> b" "b < B" "0 \<le> c" "c < C" for a b c
    proof -
      have "0 \<le> a * B * C + b * C + c"
        using that nn by (intro add_nonneg_nonneg mult_nonneg_nonneg) simp_all
      then show ?thesis by linarith
    qed
    then show ?thesis unfolding Inv_def by blast
  qed
  have stp: "Inv (a * B * C + b * C + c + 1) (body a b c s)"
    if r: "0 \<le> a" "a < A" "0 \<le> b" "b < B" "0 \<le> c" "c < C" and i: "Inv (a * B * C + b * C + c) s"
    for a b c s
  proof -
    let ?k = "a * B * C + b * C + c"
    have k0: "0 \<le> ?k" using r nn by simp
    have "\<forall>j. ?k \<le> j \<longrightarrow> s j = s0 j" using i unfolding Inv_def by blast
    then have b: "body a b c s = s(?k := M a b c)"
      using step r by blast
    have 1: "\<forall>j. ?k + 1 \<le> j \<or> j < 0 \<longrightarrow> (s(?k := M a b c)) j = s0 j"
      using i k0 unfolding Inv_def by auto
    have 2: "(s(?k := M a b c)) (a' * B * C + b' * C + c') = M a' b' c'"
      if r': "0 \<le> a'" "a' < A" "0 \<le> b'" "b' < B" "0 \<le> c'" "c' < C"
        and lt: "a' * B * C + b' * C + c' < ?k + 1" for a' b' c'
    proof (cases "a' * B * C + b' * C + c' = ?k")
      case True
      from flat3_inj [OF r'(3,4,5,6) r(3,4,5,6) True] show ?thesis
        using True by simp
    next
      case False
      then have "a' * B * C + b' * C + c' < ?k" using lt by simp
      then have "s (a' * B * C + b' * C + c') = M a' b' c'"
        using i r' unfolding Inv_def by blast
      then show ?thesis using False by simp
    qed
    show ?thesis
      unfolding b Inv_def using 1 2 by blast
  qed
  have fin: "Inv (A * B * C) res"
    unfolding res_def by (rule for_loop3_inv [where Inv = Inv and body = body, OF nn init stp])
  have "res (a * B * C + b * C + c) = M a b c"
    if "0 \<le> a" "a < A" "0 \<le> b" "b < B" "0 \<le> c" "c < C" for a b c
  proof -
    have "a * B * C + b * C + c < A * B * C"
      using that by (intro flat3_lt) simp_all
    then show ?thesis using fin that unfolding Inv_def by blast
  qed
  moreover have "\<forall>j. j < 0 \<or> A * B * C \<le> j \<longrightarrow> res j = s0 j"
    using fin unfolding Inv_def by blast
  ultimately show ?thesis by blast
qed

lemma int_div_less:
  fixes j A n :: int
  assumes "0 < n" "j < A * n"
  shows "j div n < A"
proof -
  have "j div n * n + j mod n = j" by (rule div_mult_mod_eq)
  moreover have "0 \<le> j mod n" using assms(1) by simp
  ultimately have "j div n * n < A * n" using assms(2) by linarith
  then show ?thesis using assms(1) by simp
qed

lemma flat3_decode:
  fixes j A B C :: int
  assumes "0 \<le> j" "j < A * B * C" "0 \<le> B" "0 \<le> C"
  shows "\<exists>a b c. 0 \<le> a \<and> a < A \<and> 0 \<le> b \<and> b < B \<and> 0 \<le> c \<and> c < C \<and> j = a * B * C + b * C + c"
proof -
  have "B \<noteq> 0" "C \<noteq> 0" using assms by auto
  then have B: "0 < B" and C: "0 < C" using assms by simp_all
  then have n: "0 < B * C" by simp
  define a where "a = j div (B * C)"
  define r where "r = j mod (B * C)"
  define b where "b = r div C"
  define c where "c = r mod C"
  have r: "0 \<le> r" "r < B * C" using n by (simp_all add: r_def)
  have j: "j = a * (B * C) + r" unfolding a_def r_def by (rule div_mult_mod_eq [symmetric])
  have r2: "r = b * C + c" unfolding b_def c_def by (rule div_mult_mod_eq [symmetric])
  have "0 \<le> a" using assms(1) n by (simp add: a_def pos_imp_zdiv_nonneg_iff)
  moreover have "a < A" unfolding a_def using n assms(2) by (intro int_div_less) (simp_all add: mult.assoc)
  moreover have "0 \<le> b" using r C by (simp add: b_def pos_imp_zdiv_nonneg_iff)
  moreover have "b < B" unfolding b_def using C r by (intro int_div_less) simp_all
  moreover have "0 \<le> c" "c < C" using C by (simp_all add: c_def)
  moreover have "j = a * B * C + b * C + c" using j r2 by (simp add: algebra_simps)
  ultimately show ?thesis by blast
qed

lemma maxpool2d_hw_fill:
  assumes "0 \<le> channels" "0 \<le> in_h" "0 \<le> in_w"
  shows "(\<forall>c oh ow. 0 \<le> c \<and> c < channels \<and> 0 \<le> oh \<and> oh < in_h div 2 \<and> 0 \<le> ow \<and> ow < in_w div 2
           \<longrightarrow> maxpool2d_hw input output channels in_h in_w
                 (c * (in_h div 2) * (in_w div 2) + oh * (in_w div 2) + ow)
               = max4_hw (input (c * in_h * in_w + oh * 2 * in_w + ow * 2))
                   (input (c * in_h * in_w + oh * 2 * in_w + ow * 2 + 1))
                   (input (c * in_h * in_w + (oh * 2 + 1) * in_w + ow * 2))
                   (input (c * in_h * in_w + (oh * 2 + 1) * in_w + ow * 2 + 1)))
       \<and> (\<forall>j. j < 0 \<or> channels * (in_h div 2) * (in_w div 2) \<le> j
            \<longrightarrow> maxpool2d_hw input output channels in_h in_w j = output j)"
proof -
  have d: "cdiv in_h 2 = in_h div 2" "cdiv in_w 2 = in_w div 2"
    using assms by (simp_all add: cdiv_nonneg)
  have p: "0 \<le> in_h div 2" "0 \<le> in_w div 2" using assms by simp_all
  show ?thesis
    unfolding maxpool2d_hw_def Let_def d
    by (rule rowmajor_fill [OF assms(1) p]) simp
qed

lemma pool_pass_fill:
  assumes "0 \<le> channels" "0 \<le> out_h" "0 \<le> out_w"
  shows "(\<forall>c ph pw. 0 \<le> c \<and> c < channels \<and> 0 \<le> ph \<and> ph < out_h div 2 \<and> 0 \<le> pw \<and> pw < out_w div 2
           \<longrightarrow> pool_pass channels out_h out_w fm
                 (c * (out_h div 2) * (out_w div 2) + ph * (out_w div 2) + pw)
               = max4_hw (fm (c * out_h * out_w + ph * 2 * out_w + pw * 2))
                   (fm (c * out_h * out_w + ph * 2 * out_w + pw * 2 + 1))
                   (fm (c * out_h * out_w + (ph * 2 + 1) * out_w + pw * 2))
                   (fm (c * out_h * out_w + (ph * 2 + 1) * out_w + pw * 2 + 1)))
       \<and> (\<forall>j. j < 0 \<or> channels * (out_h div 2) * (out_w div 2) \<le> j
            \<longrightarrow> pool_pass channels out_h out_w fm j = fm j)"
proof -
  let ?PH = "out_h div 2" and ?PW = "out_w div 2"
  have d: "cdiv out_h 2 = ?PH" "cdiv out_w 2 = ?PW"
    using assms by (simp_all add: cdiv_nonneg)
  have p: "0 \<le> ?PH" "0 \<le> ?PW" using assms by simp_all
  have le: "c * ?PH * ?PW + ph * ?PW + pw \<le> c * out_h * out_w + ph * 2 * out_w + pw * 2"
    if "0 \<le> c" "0 \<le> ph" "0 \<le> pw" for c ph pw
  proof -
    have "?PH * ?PW \<le> out_h * out_w"
      using assms p by (intro mult_mono) simp_all
    then have "c * (?PH * ?PW) \<le> c * (out_h * out_w)"
      using that by (intro mult_left_mono) simp_all
    moreover have "ph * ?PW \<le> ph * (2 * out_w)"
      using that assms by (intro mult_left_mono) simp_all
    ultimately show ?thesis using that by (simp add: algebra_simps)
  qed
  show ?thesis
    unfolding pool_pass_def Let_def d
  proof (rule rowmajor_fill [OF assms(1) p], goal_cases)
    case (1 a b c s)
    let ?base = "a * out_h * out_w + b * 2 * out_w + c * 2"
    have k: "a * ?PH * ?PW + b * ?PW + c \<le> ?base" using le 1 by simp
    have "s ?base = fm ?base" "s (?base + 1) = fm (?base + 1)"
      "s (?base + out_w) = fm (?base + out_w)" "s (?base + out_w + 1) = fm (?base + out_w + 1)"
      using 1(7) k assms by simp_all
    then show ?case
      by (simp add: max4_hw_def Let_def algebra_simps)
  qed
qed

lemma max4_hw_max: "max4_hw a b c d = max (max a b) (max c d)"
  by (simp add: max4_hw_def Let_def max_def)

lemma max4_hw_Max: "max4_hw a b c d = Max {a, b, c, d}"
  by (simp add: max4_hw_max max.assoc)

lemma maxpool2d_hw_frame:
  assumes "0 \<le> channels" "0 \<le> in_h" "0 \<le> in_w"
    and "j < 0 \<or> channels * (in_h div 2) * (in_w div 2) \<le> j"
  shows "maxpool2d_hw inp out0 channels in_h in_w j = out0 j"
  using maxpool2d_hw_fill [OF assms(1,2,3), of inp out0, THEN conjunct2] assms(4) by blast

lemma pool_pass_frame:
  assumes "0 \<le> channels" "0 \<le> out_h" "0 \<le> out_w"
    and "j < 0 \<or> channels * (out_h div 2) * (out_w div 2) \<le> j"
  shows "pool_pass channels out_h out_w fm j = fm j"
  using pool_pass_fill [OF assms(1,2,3), of fm, THEN conjunct2] assms(4) by blast

lemma maxpool2d_hw_at:
  assumes "0 \<le> c" "c < channels" "0 \<le> ph" "ph < in_h div 2" "0 \<le> pw" "pw < in_w div 2"
  shows "fm_at (maxpool2d_hw inp out0 channels in_h in_w) (in_h div 2) (in_w div 2) c ph pw
       = max4_hw (fm_at inp in_h in_w c (2 * ph) (2 * pw)) (fm_at inp in_h in_w c (2 * ph) (2 * pw + 1))
           (fm_at inp in_h in_w c (2 * ph + 1) (2 * pw)) (fm_at inp in_h in_w c (2 * ph + 1) (2 * pw + 1))"
proof -
  have "0 \<le> channels" "0 \<le> in_h" "0 \<le> in_w" using assms by simp_all
  from maxpool2d_hw_fill [OF this, of inp out0, THEN conjunct1, rule_format, of c ph pw] assms
  show ?thesis by (simp add: fm_at_def algebra_simps)
qed

lemma pool_pass_at:
  assumes "0 \<le> c" "c < channels" "0 \<le> ph" "ph < out_h div 2" "0 \<le> pw" "pw < out_w div 2"
  shows "fm_at (pool_pass channels out_h out_w fm) (out_h div 2) (out_w div 2) c ph pw
       = max4_hw (fm_at fm out_h out_w c (2 * ph) (2 * pw)) (fm_at fm out_h out_w c (2 * ph) (2 * pw + 1))
           (fm_at fm out_h out_w c (2 * ph + 1) (2 * pw)) (fm_at fm out_h out_w c (2 * ph + 1) (2 * pw + 1))"
proof -
  have "0 \<le> channels" "0 \<le> out_h" "0 \<le> out_w" using assms by simp_all
  from pool_pass_fill [OF this, of fm, THEN conjunct1, rule_format, of c ph pw] assms
  show ?thesis by (simp add: fm_at_def algebra_simps)
qed

lemma pool_pass_flat:
  assumes "0 \<le> channels" "0 \<le> out_h" "0 \<le> out_w"
    and "0 \<le> j" "j < channels * (out_h div 2) * (out_w div 2)"
  shows "pool_pass channels out_h out_w fm j = maxpool2d_hw fm out0 channels out_h out_w j"
proof -
  have p: "0 \<le> out_h div 2" "0 \<le> out_w div 2" using assms by simp_all
  from flat3_decode [OF assms(4,5) p]
  obtain c ph pw where r: "0 \<le> c" "c < channels" "0 \<le> ph" "ph < out_h div 2" "0 \<le> pw" "pw < out_w div 2"
    and j: "j = c * (out_h div 2) * (out_w div 2) + ph * (out_w div 2) + pw"
    by blast
  show ?thesis
    using pool_pass_at [OF r, of fm] maxpool2d_hw_at [OF r, of fm out0]
    unfolding j fm_at_def by simp
qed

lemma maxpool2d_hw_trailing:
  assumes "0 \<le> channels" "0 \<le> in_h" "0 \<le> in_w"
    and cell: "0 \<le> r" "r < in_h" "0 \<le> col" "col < in_w"
    and odd: "2 * (in_h div 2) \<le> r \<or> 2 * (in_w div 2) \<le> col"
  shows "maxpool2d_hw (inp(c' * in_h * in_w + r * in_w + col := v)) out0 channels in_h in_w
       = maxpool2d_hw inp out0 channels in_h in_w"
proof
  fix j
  let ?inp = "inp(c' * in_h * in_w + r * in_w + col := v)"
  let ?PH = "in_h div 2" and ?PW = "in_w div 2"
  have p: "0 \<le> ?PH" "0 \<le> ?PW" using assms by simp_all
  show "maxpool2d_hw ?inp out0 channels in_h in_w j = maxpool2d_hw inp out0 channels in_h in_w j"
  proof (cases "0 \<le> j \<and> j < channels * ?PH * ?PW")
    case False
    then have "j < 0 \<or> channels * ?PH * ?PW \<le> j" by linarith
    then show ?thesis
      by (simp only: maxpool2d_hw_frame [OF assms(1,2,3)])
  next
    case True
    then obtain c ph pw where q: "0 \<le> c" "c < channels" "0 \<le> ph" "ph < ?PH" "0 \<le> pw" "pw < ?PW"
      and j: "j = c * ?PH * ?PW + ph * ?PW + pw"
      using flat3_decode [OF _ _ p, of j channels] by blast
    have rows: "0 \<le> 2 * ph" "2 * ph + 1 < in_h" "0 \<le> 2 * pw" "2 * pw + 1 < in_w"
      "2 * ph + 1 < 2 * ?PH" "2 * pw + 1 < 2 * ?PW"
      using q by simp_all
    have ne: "c * in_h * in_w + a * in_w + b \<noteq> c' * in_h * in_w + r * in_w + col"
      if "a = 2 * ph \<or> a = 2 * ph + 1" "b = 2 * pw \<or> b = 2 * pw + 1" for a b
    proof
      assume e: "c * in_h * in_w + a * in_w + b = c' * in_h * in_w + r * in_w + col"
      have ab: "0 \<le> a" "a < in_h" "0 \<le> b" "b < in_w" "a < 2 * ?PH" "b < 2 * ?PW"
        using that rows by auto
      from flat3_inj [OF ab(1,2,3,4) cell e] have "a = r" "b = col" by simp_all
      then show False using odd ab by simp
    qed
    have same: "fm_at ?inp in_h in_w c a b = fm_at inp in_h in_w c a b"
      if "a = 2 * ph \<or> a = 2 * ph + 1" "b = 2 * pw \<or> b = 2 * pw + 1" for a b
      using ne [OF that] by (simp add: fm_at_def)
    have s: "fm_at ?inp in_h in_w c (2 * ph) (2 * pw) = fm_at inp in_h in_w c (2 * ph) (2 * pw)"
      "fm_at ?inp in_h in_w c (2 * ph) (2 * pw + 1) = fm_at inp in_h in_w c (2 * ph) (2 * pw + 1)"
      "fm_at ?inp in_h in_w c (2 * ph + 1) (2 * pw) = fm_at inp in_h in_w c (2 * ph + 1) (2 * pw)"
      "fm_at ?inp in_h in_w c (2 * ph + 1) (2 * pw + 1) = fm_at inp in_h in_w c (2 * ph + 1) (2 * pw + 1)"
      by (rule same, simp, simp)+
    have "fm_at (maxpool2d_hw ?inp out0 channels in_h in_w) ?PH ?PW c ph pw
        = fm_at (maxpool2d_hw inp out0 channels in_h in_w) ?PH ?PW c ph pw"
      unfolding maxpool2d_hw_at [OF q] s ..
    then show ?thesis
      unfolding j fm_at_def .
  qed
qed

section \<open>Max pooling\<close>

text \<open>
  C5. For every channel \<open>c\<close> and pooled position \<open>(ph, pw)\<close>, the element written by
  \<^verbatim>\<open>maxpool2d_hw\<close> (and by the pooling pass of the top level) is the maximum of the
  2x2-aligned block \<open>[v00, v01, v10, v11]\<close>, equal to the two-level pairwise maximum
  \<open>max (max v00 v01) (max v10 v11)\<close>. The pooled tensor has \<open>in_h div 2\<close> rows and
  \<open>in_w div 2\<close> columns per channel: no element outside
  \<open>[0, channels * (in_h div 2) * (in_w div 2))\<close> is written. An odd trailing row or column
  belongs to no window: changing the input there does not change the output.
\<close>

theorem maxpool_2x2_block_max:
  assumes "0 \<le> c" "c < channels" "0 \<le> ph" "ph < in_h div 2" "0 \<le> pw" "pw < in_w div 2"
  shows "fm_at (maxpool2d_hw inp out0 channels in_h in_w) (in_h div 2) (in_w div 2) c ph pw
           = Max {fm_at inp in_h in_w c (2 * ph) (2 * pw), fm_at inp in_h in_w c (2 * ph) (2 * pw + 1),
                  fm_at inp in_h in_w c (2 * ph + 1) (2 * pw), fm_at inp in_h in_w c (2 * ph + 1) (2 * pw + 1)}
       \<and> fm_at (maxpool2d_hw inp out0 channels in_h in_w) (in_h div 2) (in_w div 2) c ph pw
           = max (max (fm_at inp in_h in_w c (2 * ph) (2 * pw)) (fm_at inp in_h in_w c (2 * ph) (2 * pw + 1)))
                 (max (fm_at inp in_h in_w c (2 * ph + 1) (2 * pw)) (fm_at inp in_h in_w c (2 * ph + 1) (2 * pw + 1)))
       \<and> fm_at (pool_pass channels in_h in_w inp) (in_h div 2) (in_w div 2) c ph pw
           = max (max (fm_at inp in_h in_w c (2 * ph) (2 * pw)) (fm_at inp in_h in_w c (2 * ph) (2 * pw + 1)))
                 (max (fm_at inp in_h in_w c (2 * ph + 1) (2 * pw)) (fm_at inp in_h in_w c (2 * ph + 1) (2 * pw + 1)))
       \<and> (\<forall>j. j < 0 \<or> channels * (in_h div 2) * (in_w div 2) \<le> j
              \<longrightarrow> maxpool2d_hw inp out0 channels in_h in_w j = out0 j)
       \<and> (\<forall>c' r col v. 0 \<le> r \<and> r < in_h \<and> 0 \<le> col \<and> col < in_w
                \<and> (2 * (in_h div 2) \<le> r \<or> 2 * (in_w div 2) \<le> col)
              \<longrightarrow> maxpool2d_hw (inp(c' * in_h * in_w + r * in_w + col := v)) out0 channels in_h in_w
                  = maxpool2d_hw inp out0 channels in_h in_w)"
proof -
  have nn: "0 \<le> channels" "0 \<le> in_h" "0 \<le> in_w" using assms by simp_all
  have 1: "fm_at (maxpool2d_hw inp out0 channels in_h in_w) (in_h div 2) (in_w div 2) c ph pw
           = Max {fm_at inp in_h in_w c (2 * ph) (2 * pw), fm_at inp in_h in_w c (2 * ph) (2 * pw + 1),
                  fm_at inp in_h in_w c (2 * ph + 1) (2 * pw), fm_at inp in_h in_w c (2 * ph + 1) (2 * pw + 1)}"
    unfolding maxpool2d_hw_at [OF assms] by (rule max4_hw_Max)
  have 2: "fm_at (maxpool2d_hw inp out0 channels in_h in_w) (in_h div 2) (in_w div 2) c ph pw
           = max (max (fm_at inp in_h in_w c (2 * ph) (2 * pw)) (fm_at inp in_h in_w c (2 * ph) (2 * pw + 1)))
                 (max (fm_at inp in_h in_w c (2 * ph + 1) (2 * pw)) (fm_at inp in_h in_w c (2 * ph + 1) (2 * pw + 1)))"
    unfolding maxpool2d_hw_at [OF assms] by (rule max4_hw_max)
  have 3: "fm_at (pool_pass channels in_h in_w inp) (in_h div 2) (in_w div 2) c ph pw
           = max (max (fm_at inp in_h in_w c (2 * ph) (2 * pw)) (fm_at inp in_h in_w c (2 * ph) (2 * pw + 1)))
                 (max (fm_at inp in_h in_w c (2 * ph + 1) (2 * pw)) (fm_at inp in_h in_w c (2 * ph + 1) (2 * pw + 1)))"
    unfolding pool_pass_at [OF assms] by (rule max4_hw_max)
  have 4: "\<forall>j. j < 0 \<or> channels * (in_h div 2) * (in_w div 2) \<le> j
              \<longrightarrow> maxpool2d_hw inp out0 channels in_h in_w j = out0 j"
    using maxpool2d_hw_frame [OF nn] by blast
  have 5: "\<forall>c' r col v. 0 \<le> r \<and> r < in_h \<and> 0 \<le> col \<and> col < in_w
                \<and> (2 * (in_h div 2) \<le> r \<or> 2 * (in_w div 2) \<le> col)
              \<longrightarrow> maxpool2d_hw (inp(c' * in_h * in_w + r * in_w + col := v)) out0 channels in_h in_w
                  = maxpool2d_hw inp out0 channels in_h in_w"
    using maxpool2d_hw_trailing [OF nn] by blast
  show ?thesis using 1 2 3 4 5 by blast
qed

theorem maxpool_2x2_block_max_witness:
  "(0::int) < 3 div 2
   \<and> fm_at (maxpool2d_hw (\<lambda>i. i) (\<lambda>i. 0) 1 3 3) (3 div 2) (3 div 2) 0 0 0 = 4
   \<and> fm_at (pool_pass 1 3 3 (\<lambda>i. i)) (3 div 2) (3 div 2) 0 0 0 = 4
   \<and> maxpool2d_hw (\<lambda>i. i) (\<lambda>i. 0) 1 3 3 1 = 0
   \<and> maxpool2d_hw ((\<lambda>i. i)(0 * 3 * 3 + 2 * 3 + 2 := 100)) (\<lambda>i. 0) 1 3 3 = maxpool2d_hw (\<lambda>i. i) (\<lambda>i. 0) 1 3 3"
proof -
  have h: "(0::int) \<le> 0" "(0::int) < 1" "(0::int) < 3 div 2" by simp_all
  note t = maxpool_2x2_block_max [OF h(1,2) h(1,3) h(1,3), of "\<lambda>i. i" "\<lambda>i. 0"]
  have a: "fm_at (maxpool2d_hw (\<lambda>i. i) (\<lambda>i. 0) 1 3 3) (3 div 2) (3 div 2) 0 0 0 = 4"
    using t [THEN conjunct1] by (simp add: fm_at_def)
  have b: "fm_at (pool_pass 1 3 3 (\<lambda>i. i)) (3 div 2) (3 div 2) 0 0 0 = 4"
    using t [THEN conjunct2, THEN conjunct2, THEN conjunct1] by (simp add: fm_at_def)
  have c: "maxpool2d_hw (\<lambda>i. i) (\<lambda>i. 0) 1 3 3 1 = 0"
    using t [THEN conjunct2, THEN conjunct2, THEN conjunct2, THEN conjunct1, rule_format, of 1] by simp
  have d: "maxpool2d_hw ((\<lambda>i. i)(0 * 3 * 3 + 2 * 3 + 2 := 100)) (\<lambda>i. 0) 1 3 3 = maxpool2d_hw (\<lambda>i. i) (\<lambda>i. 0) 1 3 3"
    by (rule t [THEN conjunct2, THEN conjunct2, THEN conjunct2, THEN conjunct2, rule_format, of 2 2 0 100]) simp
  show ?thesis using h a b c d by blast
qed

text \<open>
  C10. The pooling pass of \<^verbatim>\<open>cnn_accelerator_top\<close> reads and writes the same buffer. For
  every channel count and all (even or odd) dimensions, every element of the pooled tensor
  it leaves in the buffer equals the element \<^verbatim>\<open>maxpool2d_hw\<close> writes into a separate
  output buffer from the same pre-pool data: every window is read before a write of the
  pass reaches it.
\<close>

theorem pool_pass_in_place_eq_maxpool2d_hw:
  assumes "0 \<le> channels" "0 \<le> out_h" "0 \<le> out_w"
    and "0 \<le> j" "j < channels * (out_h div 2) * (out_w div 2)"
  shows "pool_pass channels out_h out_w fm j = maxpool2d_hw fm out0 channels out_h out_w j"
  using assms by (rule pool_pass_flat)

theorem pool_pass_in_place_eq_maxpool2d_hw_witness:
  "(3::int) < 2 * (3 div 2) * (5 div 2)
   \<and> pool_pass 2 3 5 (\<lambda>i. i * i mod 7) 3 = maxpool2d_hw (\<lambda>i. i * i mod 7) (\<lambda>i. 0) 2 3 5 3"
proof -
  have h: "(0::int) \<le> 2" "(0::int) \<le> 3" "(0::int) \<le> 5" "(3::int) < 2 * (3 div 2) * (5 div 2)"
    by simp_all
  show ?thesis
    using h(4) pool_pass_in_place_eq_maxpool2d_hw [OF h(1) h(2) h(3) h(2) h(4)] by blast
qed

section \<open>Global average pooling\<close>

lemma for_loop_fun_upd:
  "for_loop lo hi (\<lambda>i s. s(i := g i)) s0 k = (if lo \<le> k \<and> k < hi then g k else s0 k)"
proof (cases "lo \<le> hi")
  case True
  have "\<forall>k. for_loop lo hi (\<lambda>i s. s(i := g i)) s0 k = (if lo \<le> k \<and> k < hi then g k else s0 k)"
    by (rule for_loop_inv [where P = "\<lambda>i s. \<forall>k. s k = (if lo \<le> k \<and> k < i then g k else s0 k)",
          OF _ _ True]) auto
  then show ?thesis by blast
next
  case False
  then show ?thesis by (auto simp: for_loop_empty)
qed

lemma global_avgpool_hw_cell:
  assumes "0 \<le> c" "c < channels"
  shows "global_avgpool_hw inp out0 channels height width c
       = ap_sat 16 (ap_rnd 16
           (for_loop 0 (height * width) (\<lambda>i sum. ap_sat 32 (sum + inp (c * (height * width) + i) * 256)) 0
            * data_of_reciprocal (height * width)))"
  using assms unfolding global_avgpool_hw_def Let_def
  by (simp add: for_loop_fun_upd)

lemma acc_sum_constant:
  assumes "0 \<le> n" "0 \<le> v" "n * v * 256 \<le> 2147483647"
    and "\<And>i. 0 \<le> i \<Longrightarrow> i < n \<Longrightarrow> f i = v"
  shows "for_loop 0 n (\<lambda>i sum. ap_sat 32 (sum + f i * 256)) 0 = n * v * 256"
proof (rule for_loop_inv [where P = "\<lambda>i s. s = i * v * 256", OF _ _ assms(1)])
  show "(0::int) = 0 * v * 256" by simp
next
  fix i s
  assume i: "0 \<le> i" "i < n" and s: "s = i * v * 256"
  have "(i + 1) * (v * 256) \<le> n * (v * 256)"
    using i assms(2) by (intro mult_right_mono) simp_all
  then have "(i + 1) * v * 256 \<le> 2147483647" using assms(3) by (simp add: algebra_simps)
  moreover have "0 \<le> (i + 1) * v * 256" using i assms(2) by simp
  moreover have "s + f i * 256 = (i + 1) * v * 256"
    using s assms(4) [OF i] by (simp add: algebra_simps)
  ultimately show "ap_sat 32 (s + f i * 256) = (i + 1) * v * 256"
    by (simp add: ap_sat_def)
qed

lemma data_of_reciprocal_large: "512 < n \<Longrightarrow> data_of_reciprocal n = 0"
  by (simp add: data_of_reciprocal_def ap_sat_def div_pos_pos_trivial)

lemma global_avgpool_hw_large:
  assumes "0 \<le> c" "c < channels" "512 < height * width"
  shows "global_avgpool_hw inp out0 channels height width c = 0"
  unfolding global_avgpool_hw_cell [OF assms(1,2)] data_of_reciprocal_large [OF assms(3)]
  by (simp add: ap_sat_def ap_rnd_def)

text \<open>
  C7. \<^verbatim>\<open>global_avgpool_hw\<close> does sum the elements in the wide type and multiplies by a
  precomputed reciprocal, but it stores the reciprocal in the narrow type (8 fractional
  bits). With 32 x 32 elements equal to 1.0 (raw 256) the reciprocal rounds to zero and
  the output is 0 instead of 1.0; with 7 x 7 elements equal to 100.0 (raw 25600) the
  output is raw 24500 (95.7) instead of 100.0.
\<close>

theorem global_avgpool_hw_constant_input:
  "global_avgpool_hw (\<lambda>i. 256) (\<lambda>i. 77) 1 32 32 0 = 0
   \<and> global_avgpool_hw (\<lambda>i. 25600) (\<lambda>i. 77) 1 7 7 0 = 24500"
proof -
  have a: "global_avgpool_hw (\<lambda>i. 256) (\<lambda>i. 77) 1 32 32 0 = 0"
    by (rule global_avgpool_hw_large) simp_all
  have s: "for_loop 0 (7 * 7) (\<lambda>i sum. ap_sat 32 (sum + (\<lambda>i. 25600) (0 * (7 * 7) + i) * 256)) 0
         = (7 * 7) * 25600 * 256"
    by (rule acc_sum_constant) simp_all
  have b: "global_avgpool_hw (\<lambda>i. 25600) (\<lambda>i. 77) 1 7 7 0 = 24500"
    using s by (simp add: global_avgpool_hw_cell data_of_reciprocal_def ap_sat_def ap_rnd_def)
  show ?thesis using a b by blast
qed

section \<open>Filling an on-chip buffer in loop order\<close>

lemma buf_write_length [simp]: "length (buf_write xs i v) = length xs"
  by (simp add: buf_write_def)

lemma buf_read_write_same:
  "0 \<le> i \<Longrightarrow> i < int (length xs) \<Longrightarrow> buf_read (buf_write xs i v) i = v"
  by (simp add: buf_read_def buf_write_def)

lemma buf_read_write_other:
  "0 \<le> i \<Longrightarrow> 0 \<le> j \<Longrightarrow> i \<noteq> j \<Longrightarrow> buf_read (buf_write xs i v) j = buf_read xs j"
  by (simp add: buf_read_def buf_write_def)

text \<open>
  \<open>fill_inv R pos M xs0 k xs\<close>: the buffer \<open>xs\<close> arose from \<open>xs0\<close> by writing \<open>M x\<close> at
  \<open>pos x\<close> for the coordinates \<open>x\<close> (those satisfying \<open>R\<close>) at positions below \<open>k\<close>.
\<close>

lemma fill_inv_init:
  assumes "\<And>x. R x \<Longrightarrow> 0 \<le> pos x"
  shows "fill_inv R pos M xs0 0 xs0"
  using assms unfolding fill_inv_def by (auto simp: not_less [symmetric])

lemma fill_inv_step:
  assumes inj: "\<And>y. R y \<Longrightarrow> pos y = pos x \<Longrightarrow> y = x"
    and nn: "\<And>y. R y \<Longrightarrow> 0 \<le> pos y"
    and x: "R x" "pos x < int (length xs0)"
    and inv: "fill_inv R pos M xs0 (pos x) xs"
  shows "fill_inv R pos M xs0 (pos x + 1) (buf_write xs (pos x) (M x))"
proof -
  have len: "length xs = length xs0" using inv by (simp add: fill_inv_def)
  have p0: "0 \<le> pos x" using nn x by blast
  have 1: "buf_read (buf_write xs (pos x) (M x)) j = buf_read xs0 j"
    if "pos x + 1 \<le> j" for j
  proof -
    have "buf_read (buf_write xs (pos x) (M x)) j = buf_read xs j"
      using that p0 by (intro buf_read_write_other) simp_all
    also have "\<dots> = buf_read xs0 j"
      using inv that by (simp add: fill_inv_def)
    finally show ?thesis .
  qed
  have 2: "buf_read (buf_write xs (pos x) (M x)) (pos y) = M y"
    if "R y" "pos y < pos x + 1" for y
  proof (cases "pos y = pos x")
    case True
    then have "y = x" using inj that by blast
    then show ?thesis using p0 x len by (simp add: buf_read_write_same)
  next
    case False
    then have lt: "pos y < pos x" using that by simp
    have "buf_read (buf_write xs (pos x) (M x)) (pos y) = buf_read xs (pos y)"
      using False p0 nn [OF that(1)] by (intro buf_read_write_other) simp_all
    also have "\<dots> = M y"
      using inv that(1) lt by (simp add: fill_inv_def)
    finally show ?thesis .
  qed
  show ?thesis
    unfolding fill_inv_def using len 1 2 by simp
qed

lemma for_loop3_inv_gen:
  assumes le: "l1 \<le> h1" "l2 \<le> h2" "l3 \<le> h3"
    and init: "Inv 0 s"
    and step: "\<And>a b c s. l1 \<le> a \<Longrightarrow> a < h1 \<Longrightarrow> l2 \<le> b \<Longrightarrow> b < h2 \<Longrightarrow> l3 \<le> c \<Longrightarrow> c < h3
         \<Longrightarrow> Inv ((a - l1) * (h2 - l2) * (h3 - l3) + (b - l2) * (h3 - l3) + (c - l3)) s
         \<Longrightarrow> Inv ((a - l1) * (h2 - l2) * (h3 - l3) + (b - l2) * (h3 - l3) + (c - l3) + 1) (body a b c s)"
  shows "Inv ((h1 - l1) * (h2 - l2) * (h3 - l3))
           (for_loop l1 h1 (\<lambda>a. for_loop l2 h2 (\<lambda>b. for_loop l3 h3 (body a b))) s)"
proof -
  let ?B = "h2 - l2" and ?C = "h3 - l3"
  have inner: "Inv ((a - l1) * ?B * ?C + (b + 1 - l2) * ?C) (for_loop l3 h3 (body a b) t)"
    if "l1 \<le> a" "a < h1" "l2 \<le> b" "b < h2" "Inv ((a - l1) * ?B * ?C + (b - l2) * ?C) t" for a b t
  proof -
    have eq: "(a - l1) * ?B * ?C + (b + 1 - l2) * ?C = (a - l1) * ?B * ?C + (b - l2) * ?C + (h3 - l3)"
      by (simp add: algebra_simps)
    show ?thesis unfolding eq
    proof (rule for_loop_inv [where P = "\<lambda>c. Inv ((a - l1) * ?B * ?C + (b - l2) * ?C + (c - l3))"])
      show "Inv ((a - l1) * ?B * ?C + (b - l2) * ?C + (l3 - l3)) t" using that by simp
      show "l3 \<le> h3" by (rule le)
      fix i u assume "l3 \<le> i" "i < h3" "Inv ((a - l1) * ?B * ?C + (b - l2) * ?C + (i - l3)) u"
      then have "Inv ((a - l1) * ?B * ?C + (b - l2) * ?C + (i - l3) + 1) (body a b i u)"
        using step that by blast
      moreover have "(a - l1) * ?B * ?C + (b - l2) * ?C + (i - l3) + 1
          = (a - l1) * ?B * ?C + (b - l2) * ?C + (i + 1 - l3)" by simp
      ultimately show "Inv ((a - l1) * ?B * ?C + (b - l2) * ?C + (i + 1 - l3)) (body a b i u)"
        by simp
    qed
  qed
  have middle: "Inv ((a + 1 - l1) * ?B * ?C) (for_loop l2 h2 (\<lambda>b. for_loop l3 h3 (body a b)) t)"
    if "l1 \<le> a" "a < h1" "Inv ((a - l1) * ?B * ?C) t" for a t
  proof -
    have eq: "(a + 1 - l1) * ?B * ?C = (a - l1) * ?B * ?C + (h2 - l2) * ?C"
      by (simp add: algebra_simps)
    show ?thesis unfolding eq
    proof (rule for_loop_inv [where P = "\<lambda>b. Inv ((a - l1) * ?B * ?C + (b - l2) * ?C)"])
      show "Inv ((a - l1) * ?B * ?C + (l2 - l2) * ?C) t" using that by simp
      show "l2 \<le> h2" by (rule le)
      fix i u assume "l2 \<le> i" "i < h2" "Inv ((a - l1) * ?B * ?C + (i - l2) * ?C) u"
      then show "Inv ((a - l1) * ?B * ?C + (i + 1 - l2) * ?C) (for_loop l3 h3 (body a i) u)"
        using inner that by blast
    qed
  qed
  show ?thesis
  proof (rule for_loop_inv [where P = "\<lambda>a. Inv ((a - l1) * ?B * ?C)"])
    show "Inv ((l1 - l1) * ?B * ?C) s" using init by simp
    show "l1 \<le> h1" by (rule le)
    fix i u assume "l1 \<le> i" "i < h1" "Inv ((i - l1) * ?B * ?C) u"
    then show "Inv ((i + 1 - l1) * ?B * ?C) (for_loop l2 h2 (\<lambda>b. for_loop l3 h3 (body i b)) u)"
      using middle by blast
  qed
qed

lemma for_loop4_inv_gen:
  assumes le: "l1 \<le> h1" "l2 \<le> h2" "l3 \<le> h3" "l4 \<le> h4"
    and init: "Inv 0 s"
    and step: "\<And>a b c d s. l1 \<le> a \<Longrightarrow> a < h1 \<Longrightarrow> l2 \<le> b \<Longrightarrow> b < h2 \<Longrightarrow> l3 \<le> c \<Longrightarrow> c < h3
         \<Longrightarrow> l4 \<le> d \<Longrightarrow> d < h4
         \<Longrightarrow> Inv ((a - l1) * (h2 - l2) * (h3 - l3) * (h4 - l4) + (b - l2) * (h3 - l3) * (h4 - l4)
                 + (c - l3) * (h4 - l4) + (d - l4)) s
         \<Longrightarrow> Inv ((a - l1) * (h2 - l2) * (h3 - l3) * (h4 - l4) + (b - l2) * (h3 - l3) * (h4 - l4)
                 + (c - l3) * (h4 - l4) + (d - l4) + 1) (body a b c d s)"
  shows "Inv ((h1 - l1) * (h2 - l2) * (h3 - l3) * (h4 - l4))
           (for_loop l1 h1 (\<lambda>a. for_loop l2 h2 (\<lambda>b. for_loop l3 h3 (\<lambda>c. for_loop l4 h4 (body a b c)))) s)"
proof -
  let ?B = "h2 - l2" and ?C = "h3 - l3" and ?D = "h4 - l4"
  have inner: "Inv ((a + 1 - l1) * ?B * ?C * ?D)
        (for_loop l2 h2 (\<lambda>b. for_loop l3 h3 (\<lambda>c. for_loop l4 h4 (body a b c))) t)"
    if a: "l1 \<le> a" "a < h1" and t: "Inv ((a - l1) * ?B * ?C * ?D) t" for a t
  proof -
    have eq: "(a + 1 - l1) * ?B * ?C * ?D = (a - l1) * ?B * ?C * ?D + ?B * ?C * ?D"
      by (simp add: algebra_simps)
    show ?thesis unfolding eq
    proof (rule for_loop3_inv_gen [where Inv = "\<lambda>k. Inv ((a - l1) * ?B * ?C * ?D + k)"
            and body = "body a", OF le(2,3,4)])
      show "Inv ((a - l1) * ?B * ?C * ?D + 0) t" using t by simp
      fix b c d u
      assume r: "l2 \<le> b" "b < h2" "l3 \<le> c" "c < h3" "l4 \<le> d" "d < h4"
        and i: "Inv ((a - l1) * ?B * ?C * ?D + ((b - l2) * ?C * ?D + (c - l3) * ?D + (d - l4))) u"
      have "Inv ((a - l1) * ?B * ?C * ?D + (b - l2) * ?C * ?D + (c - l3) * ?D + (d - l4) + 1) (body a b c d u)"
        using step [OF a r] i by (simp add: add.assoc)
      then show "Inv ((a - l1) * ?B * ?C * ?D + ((b - l2) * ?C * ?D + (c - l3) * ?D + (d - l4) + 1)) (body a b c d u)"
        by (simp add: add.assoc)
    qed
  qed
  show ?thesis
  proof (rule for_loop_inv [where P = "\<lambda>a. Inv ((a - l1) * ?B * ?C * ?D)"])
    show "Inv ((l1 - l1) * ?B * ?C * ?D) s" using init by simp
    show "l1 \<le> h1" by (rule le)
    fix i u assume "l1 \<le> i" "i < h1" "Inv ((i - l1) * ?B * ?C * ?D) u"
    then show "Inv ((i + 1 - l1) * ?B * ?C * ?D)
       (for_loop l2 h2 (\<lambda>b. for_loop l3 h3 (\<lambda>c. for_loop l4 h4 (body i b c))) u)"
      using inner by blast
  qed
qed

lemma flat4_inj:
  fixes a b c d a' b' c' d' B C D :: int
  assumes "0 \<le> b" "b < B" "0 \<le> c" "c < C" "0 \<le> d" "d < D"
    and "0 \<le> b'" "b' < B" "0 \<le> c'" "c' < C" "0 \<le> d'" "d' < D"
    and e: "a * B * C * D + b * C * D + c * D + d = a' * B * C * D + b' * C * D + c' * D + d'"
  shows "a = a' \<and> b = b' \<and> c = c' \<and> d = d'"
proof -
  have 1: "b * C + c < B * C" "b' * C + c' < B * C" using assms by (auto intro: flat2_lt)
  have 2: "0 \<le> b * C + c" "0 \<le> b' * C + c'" using assms by simp_all
  have "a * (B * C) * D + (b * C + c) * D + d = a' * (B * C) * D + (b' * C + c') * D + d'"
    using e by (simp add: algebra_simps)
  from flat3_inj [OF 2(1) 1(1) assms(5,6) 2(2) 1(2) assms(11,12) this]
  have "a = a'" "b * C + c = b' * C + c'" "d = d'" by simp_all
  moreover from flat2_inj [OF assms(3,4,9,10) this(2)] have "b = b'" "c = c'" by simp_all
  ultimately show ?thesis by simp
qed

lemma flat4_lt:
  fixes a b c d A B C D :: int
  assumes "a < A" "0 \<le> b" "b < B" "0 \<le> c" "c < C" "0 \<le> d" "d < D"
  shows "a * B * C * D + b * C * D + c * D + d < A * B * C * D"
proof -
  have 1: "b * C + c < B * C" using assms by (intro flat2_lt) simp_all
  have 2: "0 \<le> b * C + c" using assms by simp
  have "a * (B * C) * D + (b * C + c) * D + d < A * (B * C) * D"
    using assms(1) 2 1 assms(6,7) by (rule flat3_lt)
  then show ?thesis by (simp add: algebra_simps)
qed

section \<open>The stagers\<close>

lemma init_acc_length [simp]: "length (init_acc n xs) = length xs"
  unfolding init_acc_def
  by (rule for_loop_pres [where P = "\<lambda>s. length s = length xs"]) simp_all

lemma init_acc_zero:
  assumes "0 \<le> i" "i < n" "n \<le> int (length xs)"
  shows "buf_read (init_acc n xs) i = 0"
proof -
  have n: "0 \<le> n" using assms by simp
  have "length (init_acc n xs) = length xs \<and> (\<forall>i. 0 \<le> i \<and> i < n \<longrightarrow> buf_read (init_acc n xs) i = 0)"
    unfolding init_acc_def
  proof (rule for_loop_inv [where P = "\<lambda>k s. length s = length xs \<and> (\<forall>i. 0 \<le> i \<and> i < k \<longrightarrow> buf_read s i = 0)", OF _ _ n])
    show "length xs = length xs \<and> (\<forall>i. 0 \<le> i \<and> i < 0 \<longrightarrow> buf_read xs i = 0)" by simp
  next
    fix k s
    assume k: "0 \<le> k" "k < n" and s: "length s = length xs \<and> (\<forall>i. 0 \<le> i \<and> i < k \<longrightarrow> buf_read s i = 0)"
    have "buf_read (buf_write s k 0) i = 0" if "0 \<le> i" "i < k + 1" for i
    proof (cases "i = k")
      case True
      then show ?thesis using k s assms(3) by (simp add: buf_read_write_same)
    next
      case False
      then have "buf_read (buf_write s k 0) i = buf_read s i"
        using k that by (intro buf_read_write_other) simp_all
      then show ?thesis using s that False by simp
    qed
    then show "length (buf_write s k 0) = length xs \<and> (\<forall>i. 0 \<le> i \<and> i < k + 1 \<longrightarrow> buf_read (buf_write s k 0) i = 0)"
      using s by simp
  qed
  then show ?thesis using assms by blast
qed

lemma load_input_fill:
  assumes le: "ic_start \<le> ic_end" "ih_start \<le> ih_end" "iw_start \<le> iw_end"
    and fits: "(ic_end - ic_start) * (ih_end - ih_start) * (iw_end - iw_start) \<le> int (length xs)"
  shows "length (load_input input_fm cfg ic_start ic_end ih_start ih_end iw_start iw_end xs) = length xs
       \<and> (\<forall>ic ih iw. ic_start \<le> ic \<and> ic < ic_end \<and> ih_start \<le> ih \<and> ih < ih_end \<and> iw_start \<le> iw \<and> iw < iw_end
            \<longrightarrow> buf_read (load_input input_fm cfg ic_start ic_end ih_start ih_end iw_start iw_end xs)
                  ((ic - ic_start) * (ih_end - ih_start) * (iw_end - iw_start)
                    + (ih - ih_start) * (iw_end - iw_start) + (iw - iw_start))
                = (if 0 \<le> ih \<and> ih < in_height cfg \<and> 0 \<le> iw \<and> iw < in_width cfg
                   then input_fm (ic * in_height cfg * in_width cfg + ih * in_width cfg + iw) else 0))"
proof -
  let ?A = "ic_end - ic_start" and ?B = "ih_end - ih_start" and ?C = "iw_end - iw_start"
  define R where "R = (\<lambda>(ic, ih, iw). ic_start \<le> ic \<and> ic < ic_end \<and> ih_start \<le> ih \<and> ih < ih_end
     \<and> iw_start \<le> iw \<and> iw < iw_end)"
  define pos where "pos = (\<lambda>(ic, ih, iw). (ic - ic_start) * ?B * ?C + (ih - ih_start) * ?C + (iw - iw_start))"
  define M where "M = (\<lambda>(ic, ih, iw). if 0 \<le> ih \<and> ih < in_height cfg \<and> 0 \<le> iw \<and> iw < in_width cfg
                   then input_fm (ic * in_height cfg * in_width cfg + ih * in_width cfg + iw) else 0)"
  define Inv where "Inv = (\<lambda>k (s :: int \<times> int list). fst s = k \<and> fill_inv R pos M xs k (snd s))"
  have nn: "0 \<le> ?A" "0 \<le> ?B" "0 \<le> ?C" using le by simp_all
  have pos_nn: "0 \<le> pos x" if "R x" for x
    using that nn unfolding R_def pos_def by (auto intro!: add_nonneg_nonneg mult_nonneg_nonneg)
  have pos_lt: "pos x < ?A * ?B * ?C" if "R x" for x
    using that unfolding R_def pos_def by (auto intro!: flat3_lt)
  have pos_inj: "y = x" if "R y" "R x" "pos y = pos x" for x y
  proof -
    obtain a b c where x: "x = (a, b, c)" by (cases x) auto
    obtain a' b' c' where y: "y = (a', b', c')" by (cases y) auto
    have "a' - ic_start = a - ic_start \<and> b' - ih_start = b - ih_start \<and> c' - iw_start = c - iw_start"
      using that unfolding x y R_def pos_def by (intro flat3_inj [where B = ?B and C = ?C]) auto
    then show ?thesis unfolding x y by simp
  qed
  have init: "Inv 0 (0, xs)"
    unfolding Inv_def using fill_inv_init [of R pos M xs] pos_nn by simp
  have step: "Inv ((a - ic_start) * ?B * ?C + (b - ih_start) * ?C + (c - iw_start) + 1)
      ((\<lambda>(tile_idx, input_tile).
                (tile_idx + 1,
                 (if b \<ge> 0 \<and> b < in_height cfg \<and> c \<ge> 0 \<and> c < in_width cfg
                  then (let ddr_idx = a * in_height cfg * in_width cfg + b * in_width cfg + c
                        in buf_write input_tile tile_idx (input_fm ddr_idx))
                  else buf_write input_tile tile_idx 0))) s)"
    if r: "ic_start \<le> a" "a < ic_end" "ih_start \<le> b" "b < ih_end" "iw_start \<le> c" "c < iw_end"
      and i: "Inv ((a - ic_start) * ?B * ?C + (b - ih_start) * ?C + (c - iw_start)) s" for a b c s
  proof -
    have Rx: "R (a, b, c)" using r by (simp add: R_def)
    have px: "pos (a, b, c) = (a - ic_start) * ?B * ?C + (b - ih_start) * ?C + (c - iw_start)"
      by (simp add: pos_def)
    obtain idx tile where s: "s = (idx, tile)" by (cases s) auto
    have idx: "idx = pos (a, b, c)" and f: "fill_inv R pos M xs (pos (a, b, c)) tile"
      using i unfolding Inv_def s px by simp_all
    have lt: "pos (a, b, c) < int (length xs)"
      using pos_lt [OF Rx] fits by simp
    have "fill_inv R pos M xs (pos (a, b, c) + 1) (buf_write tile (pos (a, b, c)) (M (a, b, c)))"
      using pos_inj [OF _ Rx] pos_nn Rx lt f by (rule fill_inv_step)
    moreover have "(\<lambda>(tile_idx, input_tile).
                (tile_idx + 1,
                 (if b \<ge> 0 \<and> b < in_height cfg \<and> c \<ge> 0 \<and> c < in_width cfg
                  then (let ddr_idx = a * in_height cfg * in_width cfg + b * in_width cfg + c
                        in buf_write input_tile tile_idx (input_fm ddr_idx))
                  else buf_write input_tile tile_idx 0))) s
         = (pos (a, b, c) + 1, buf_write tile (pos (a, b, c)) (M (a, b, c)))"
      unfolding s idx by (simp add: M_def Let_def)
    ultimately show ?thesis
      unfolding Inv_def px [symmetric] by simp
  qed
  have fin: "Inv (?A * ?B * ?C)
     (for_loop ic_start ic_end (\<lambda>ic.
            for_loop ih_start ih_end (\<lambda>ih.
              for_loop iw_start iw_end (\<lambda>iw (tile_idx, input_tile).
                (tile_idx + 1,
                 (if ih \<ge> 0 \<and> ih < in_height cfg \<and> iw \<ge> 0 \<and> iw < in_width cfg
                  then (let ddr_idx = ic * in_height cfg * in_width cfg + ih * in_width cfg + iw
                        in buf_write input_tile tile_idx (input_fm ddr_idx))
                  else buf_write input_tile tile_idx 0)))))
          (0, xs))"
    by (rule for_loop3_inv_gen [where Inv = Inv, OF le init step])
  then have f: "fill_inv R pos M xs (?A * ?B * ?C) (load_input input_fm cfg ic_start ic_end ih_start ih_end iw_start iw_end xs)"
    unfolding load_input_def Inv_def by simp
  have "buf_read (load_input input_fm cfg ic_start ic_end ih_start ih_end iw_start iw_end xs) (pos x) = M x"
    if "R x" for x
    using f that pos_lt [OF that] unfolding fill_inv_def by blast
  then have "\<forall>ic ih iw. R (ic, ih, iw) \<longrightarrow>
     buf_read (load_input input_fm cfg ic_start ic_end ih_start ih_end iw_start iw_end xs) (pos (ic, ih, iw)) = M (ic, ih, iw)"
    by blast
  moreover have "length (load_input input_fm cfg ic_start ic_end ih_start ih_end iw_start iw_end xs) = length xs"
    using f unfolding fill_inv_def by simp
  ultimately show ?thesis
    unfolding R_def pos_def M_def by simp
qed

lemma load_weights_fill:
  assumes le: "oc_start \<le> oc_end" "ic_start \<le> ic_end" "0 \<le> kernel_size cfg"
    and fits: "(oc_end - oc_start) * (ic_end - ic_start) * kernel_size cfg * kernel_size cfg \<le> int (length xs)"
  shows "length (load_weights weights cfg oc_start oc_end ic_start ic_end xs) = length xs
       \<and> (\<forall>oc ic kh kw. oc_start \<le> oc \<and> oc < oc_end \<and> ic_start \<le> ic \<and> ic < ic_end
              \<and> 0 \<le> kh \<and> kh < kernel_size cfg \<and> 0 \<le> kw \<and> kw < kernel_size cfg
            \<longrightarrow> buf_read (load_weights weights cfg oc_start oc_end ic_start ic_end xs)
                  ((oc - oc_start) * (ic_end - ic_start) * kernel_size cfg * kernel_size cfg
                    + (ic - ic_start) * kernel_size cfg * kernel_size cfg + kh * kernel_size cfg + kw)
                = weights (oc * in_channels cfg * kernel_size cfg * kernel_size cfg
                    + ic * kernel_size cfg * kernel_size cfg + kh * kernel_size cfg + kw))"
proof -
  let ?A = "oc_end - oc_start" and ?B = "ic_end - ic_start" and ?K = "kernel_size cfg"
  define R where "R = (\<lambda>(oc, ic, kh, kw). oc_start \<le> oc \<and> oc < oc_end \<and> ic_start \<le> ic \<and> ic < ic_end
     \<and> 0 \<le> kh \<and> kh < ?K \<and> 0 \<le> kw \<and> kw < ?K)"
  define pos where "pos = (\<lambda>(oc, ic, kh, kw). (oc - oc_start) * ?B * ?K * ?K + (ic - ic_start) * ?K * ?K + kh * ?K + kw)"
  define M where "M = (\<lambda>(oc, ic, kh, kw). weights (oc * in_channels cfg * ?K * ?K + ic * ?K * ?K + kh * ?K + kw))"
  define Inv where "Inv = fill_inv R pos M xs"
  have nn: "0 \<le> ?A" "0 \<le> ?B" using le by simp_all
  have pos_nn: "0 \<le> pos x" if "R x" for x
    using that nn le(3) unfolding R_def pos_def by (auto intro!: add_nonneg_nonneg mult_nonneg_nonneg)
  have pos_lt: "pos x < ?A * ?B * ?K * ?K" if "R x" for x
    using that unfolding R_def pos_def by (auto intro!: flat4_lt)
  have pos_inj: "y = x" if "R y" "R x" "pos y = pos x" for x y
  proof -
    obtain a b c d where x: "x = (a, b, c, d)" by (cases x) auto
    obtain a' b' c' d' where y: "y = (a', b', c', d')" by (cases y) auto
    have "a' - oc_start = a - oc_start \<and> b' - ic_start = b - ic_start \<and> c' = c \<and> d' = d"
      using that unfolding x y R_def pos_def by (intro flat4_inj [where B = ?B and C = ?K and D = ?K]) auto
    then show ?thesis unfolding x y by simp
  qed
  have init: "Inv 0 xs"
    unfolding Inv_def using fill_inv_init [of R pos M xs] pos_nn by simp
  have step: "Inv ((a - oc_start) * ?B * (?K - 0) * (?K - 0) + (b - ic_start) * (?K - 0) * (?K - 0) + (c - 0) * (?K - 0) + (d - 0) + 1)
      (buf_write s ((a - oc_start) * ?B * ?K * ?K + (b - ic_start) * ?K * ?K + c * ?K + d)
          (weights (a * in_channels cfg * ?K * ?K + b * ?K * ?K + c * ?K + d)))"
    if r: "oc_start \<le> a" "a < oc_end" "ic_start \<le> b" "b < ic_end" "0 \<le> c" "c < ?K" "0 \<le> d" "d < ?K"
      and i: "Inv ((a - oc_start) * ?B * (?K - 0) * (?K - 0) + (b - ic_start) * (?K - 0) * (?K - 0) + (c - 0) * (?K - 0) + (d - 0)) s" for a b c d s
  proof -
    have Rx: "R (a, b, c, d)" using r by (simp add: R_def)
    have px: "pos (a, b, c, d) = (a - oc_start) * ?B * ?K * ?K + (b - ic_start) * ?K * ?K + c * ?K + d"
      by (simp add: pos_def)
    have f: "fill_inv R pos M xs (pos (a, b, c, d)) s"
      using i unfolding Inv_def px by simp
    have lt: "pos (a, b, c, d) < int (length xs)"
      using pos_lt [OF Rx] fits by simp
    have "fill_inv R pos M xs (pos (a, b, c, d) + 1) (buf_write s (pos (a, b, c, d)) (M (a, b, c, d)))"
      using pos_inj [OF _ Rx] pos_nn Rx lt f by (rule fill_inv_step)
    then show ?thesis
      unfolding Inv_def px by (simp add: M_def)
  qed
  have "Inv (?A * ?B * (?K - 0) * (?K - 0)) (load_weights weights cfg oc_start oc_end ic_start ic_end xs)"
    unfolding load_weights_def Let_def
    by (rule for_loop4_inv_gen [where Inv = Inv, OF le(1,2,3,3) init step])
  then have f: "fill_inv R pos M xs (?A * ?B * ?K * ?K) (load_weights weights cfg oc_start oc_end ic_start ic_end xs)"
    unfolding Inv_def by simp
  have "buf_read (load_weights weights cfg oc_start oc_end ic_start ic_end xs) (pos x) = M x"
    if "R x" for x
    using f that pos_lt [OF that] unfolding fill_inv_def by blast
  then have "\<forall>oc ic kh kw. R (oc, ic, kh, kw) \<longrightarrow>
     buf_read (load_weights weights cfg oc_start oc_end ic_start ic_end xs) (pos (oc, ic, kh, kw)) = M (oc, ic, kh, kw)"
    by blast
  moreover have "length (load_weights weights cfg oc_start oc_end ic_start ic_end xs) = length xs"
    using f unfolding fill_inv_def by simp
  ultimately show ?thesis
    unfolding R_def pos_def M_def by simp
qed

lemma compute_tile_fill:
  assumes le: "0 \<le> oc_count" "oh_start \<le> oh_end" "ow_start \<le> ow_end"
    and fits: "oc_count * (oh_end - oh_start) * (ow_end - ow_start) \<le> int (length acc)"
  shows "length (compute_tile cfg oc_count oh_start oh_end ow_start ow_end ic_count tile_ih tile_iw inp wt acc)
           = length acc
       \<and> (\<forall>oc oh ow. 0 \<le> oc \<and> oc < oc_count \<and> 0 \<le> oh \<and> oh < oh_end - oh_start \<and> 0 \<le> ow \<and> ow < ow_end - ow_start
            \<longrightarrow> buf_read (compute_tile cfg oc_count oh_start oh_end ow_start ow_end ic_count tile_ih tile_iw inp wt acc)
                  (oc * (oh_end - oh_start) * (ow_end - ow_start) + oh * (ow_end - ow_start) + ow)
                = tile_mac cfg ic_count tile_ih tile_iw inp wt oc oh ow
                    (buf_read acc (oc * (oh_end - oh_start) * (ow_end - ow_start) + oh * (ow_end - ow_start) + ow)))"
proof -
  let ?B = "oh_end - oh_start" and ?C = "ow_end - ow_start"
  define R where "R = (\<lambda>(oc, oh, ow). 0 \<le> oc \<and> oc < oc_count \<and> 0 \<le> oh \<and> oh < ?B \<and> 0 \<le> ow \<and> ow < ?C)"
  define pos where "pos = (\<lambda>(oc, oh, ow). oc * ?B * ?C + oh * ?C + ow)"
  define M where "M = (\<lambda>(oc, oh, ow). tile_mac cfg ic_count tile_ih tile_iw inp wt oc oh ow
                    (buf_read acc (oc * ?B * ?C + oh * ?C + ow)))"
  define Inv where "Inv = fill_inv R pos M acc"
  have nn: "0 \<le> ?B" "0 \<le> ?C" using le by simp_all
  have pos_nn: "0 \<le> pos x" if "R x" for x
    using that nn unfolding R_def pos_def by (auto intro!: add_nonneg_nonneg mult_nonneg_nonneg)
  have pos_lt: "pos x < oc_count * ?B * ?C" if "R x" for x
    using that unfolding R_def pos_def by (auto intro!: flat3_lt)
  have pos_inj: "y = x" if "R y" "R x" "pos y = pos x" for x y
  proof -
    obtain a b c where x: "x = (a, b, c)" by (cases x) auto
    obtain a' b' c' where y: "y = (a', b', c')" by (cases y) auto
    have "a' = a \<and> b' = b \<and> c' = c"
      using that unfolding x y R_def pos_def by (intro flat3_inj [where B = ?B and C = ?C]) auto
    then show ?thesis unfolding x y by simp
  qed
  have init: "Inv 0 acc"
    unfolding Inv_def using fill_inv_init [of R pos M acc] pos_nn by simp
  have step: "Inv (a * ?B * ?C + b * ?C + c + 1)
      (let sum = buf_read s (a * ?B * ?C + b * ?C + c);
           sum = tile_mac cfg ic_count tile_ih tile_iw inp wt a b c sum
       in buf_write s (a * ?B * ?C + b * ?C + c) sum)"
    if r: "0 \<le> a" "a < oc_count" "0 \<le> b" "b < ?B" "0 \<le> c" "c < ?C"
      and i: "Inv (a * ?B * ?C + b * ?C + c) s" for a b c s
  proof -
    have Rx: "R (a, b, c)" using r by (simp add: R_def)
    have px: "pos (a, b, c) = a * ?B * ?C + b * ?C + c"
      by (simp add: pos_def)
    have f: "fill_inv R pos M acc (pos (a, b, c)) s"
      using i unfolding Inv_def px by simp
    have lt: "pos (a, b, c) < int (length acc)"
      using pos_lt [OF Rx] fits by simp
    have old: "buf_read s (pos (a, b, c)) = buf_read acc (pos (a, b, c))"
      using f unfolding fill_inv_def by simp
    have "fill_inv R pos M acc (pos (a, b, c) + 1) (buf_write s (pos (a, b, c)) (M (a, b, c)))"
      using pos_inj [OF _ Rx] pos_nn Rx lt f by (rule fill_inv_step)
    then show ?thesis
      using old unfolding Inv_def px by (simp add: M_def Let_def)
  qed
  have "Inv (oc_count * ?B * ?C)
      (compute_tile cfg oc_count oh_start oh_end ow_start ow_end ic_count tile_ih tile_iw inp wt acc)"
    unfolding compute_tile_def
    by (rule for_loop3_inv [where Inv = Inv, OF le(1) nn init step])
  then have f: "fill_inv R pos M acc (oc_count * ?B * ?C)
      (compute_tile cfg oc_count oh_start oh_end ow_start ow_end ic_count tile_ih tile_iw inp wt acc)"
    unfolding Inv_def by simp
  have "buf_read (compute_tile cfg oc_count oh_start oh_end ow_start ow_end ic_count tile_ih tile_iw inp wt acc) (pos x) = M x"
    if "R x" for x
    using f that pos_lt [OF that] unfolding fill_inv_def by blast
  then have "\<forall>oc oh ow. R (oc, oh, ow) \<longrightarrow>
     buf_read (compute_tile cfg oc_count oh_start oh_end ow_start ow_end ic_count tile_ih tile_iw inp wt acc) (pos (oc, oh, ow)) = M (oc, oh, ow)"
    by blast
  moreover have "length (compute_tile cfg oc_count oh_start oh_end ow_start ow_end ic_count tile_ih tile_iw inp wt acc) = length acc"
    using f unfolding fill_inv_def by simp
  ultimately show ?thesis
    unfolding R_def pos_def M_def by simp
qed

section \<open>The multiply-accumulate kernel\<close>

lemma ap_sat32_range: "- 2147483648 \<le> ap_sat 32 x \<and> ap_sat 32 x \<le> 2147483647"
  by (simp add: ap_sat_def)

lemma ap_sat32_id: "- 2147483648 \<le> x \<Longrightarrow> x \<le> 2147483647 \<Longrightarrow> ap_sat 32 x = x"
  by (simp add: ap_sat_def)

lemma conv_mac_range_ok:
  assumes "- 2147483648 \<le> s \<and> s \<le> 2147483647"
  shows "- 2147483648 \<le> conv_mac_range input_fm weights cfg oc oh ow lo hi s
       \<and> conv_mac_range input_fm weights cfg oc oh ow lo hi s \<le> 2147483647"
  unfolding conv_mac_range_def
  by (rule for_loop_pres [where P = "\<lambda>s. - 2147483648 \<le> s \<and> s \<le> 2147483647", OF assms],
      rule for_loop_pres, assumption, rule for_loop_pres, assumption)
     (simp add: Let_def ap_sat_def)

lemma conv_mac_range_split:
  "lo \<le> mid \<Longrightarrow> mid \<le> hi \<Longrightarrow>
   conv_mac_range input_fm weights cfg oc oh ow mid hi (conv_mac_range input_fm weights cfg oc oh ow lo mid s)
     = conv_mac_range input_fm weights cfg oc oh ow lo hi s"
  unfolding conv_mac_range_def by (rule for_loop_split [symmetric])

lemma conv_mac_range_empty:
  "hi \<le> lo \<Longrightarrow> conv_mac_range input_fm weights cfg oc oh ow lo hi s = s"
  unfolding conv_mac_range_def by (rule for_loop_empty)

lemma tile_mac_conv:
  fixes cfg :: layer_config
  defines "K \<equiv> kernel_size cfg" and "S \<equiv> stride cfg" and "P \<equiv> padding cfg"
  assumes geo: "ih_start = oh_start * S - P" "ih_end = (oh_end - 1) * S + K - P"
      "iw_start = ow_start * S - P" "iw_end = (ow_end - 1) * S + K - P"
    and S: "0 \<le> S"
    and inp: "\<forall>ic ih iw. ic_start \<le> ic \<and> ic < ic_end \<and> ih_start \<le> ih \<and> ih < ih_end \<and> iw_start \<le> iw \<and> iw < iw_end
            \<longrightarrow> buf_read inp
                  ((ic - ic_start) * (ih_end - ih_start) * (iw_end - iw_start)
                    + (ih - ih_start) * (iw_end - iw_start) + (iw - iw_start))
                = (if 0 \<le> ih \<and> ih < in_height cfg \<and> 0 \<le> iw \<and> iw < in_width cfg
                   then input_fm (ic * in_height cfg * in_width cfg + ih * in_width cfg + iw) else 0)"
    and wt: "\<forall>oc ic kh kw. oc_start \<le> oc \<and> oc < oc_end \<and> ic_start \<le> ic \<and> ic < ic_end
              \<and> 0 \<le> kh \<and> kh < kernel_size cfg \<and> 0 \<le> kw \<and> kw < kernel_size cfg
            \<longrightarrow> buf_read wt
                  ((oc - oc_start) * (ic_end - ic_start) * kernel_size cfg * kernel_size cfg
                    + (ic - ic_start) * kernel_size cfg * kernel_size cfg + kh * kernel_size cfg + kw)
                = weights (oc * in_channels cfg * kernel_size cfg * kernel_size cfg
                    + ic * kernel_size cfg * kernel_size cfg + kh * kernel_size cfg + kw)"
    and loc: "0 \<le> oc" "oc < oc_end - oc_start" "0 \<le> oh" "oh < oh_end - oh_start"
      "0 \<le> ow" "ow < ow_end - ow_start"
    and s: "- 2147483648 \<le> s \<and> s \<le> 2147483647"
  shows "tile_mac cfg (ic_end - ic_start) (ih_end - ih_start) (iw_end - iw_start) inp wt oc oh ow s
       = conv_mac_range input_fm weights cfg (oc_start + oc) (oh_start + oh) (ow_start + ow) ic_start ic_end s"
proof -
  let ?ok = "\<lambda>s::int. - 2147483648 \<le> s \<and> s \<le> 2147483647"
  let ?TH = "ih_end - ih_start" and ?TW = "iw_end - iw_start" and ?IC = "ic_end - ic_start"
  let ?f = "\<lambda>ic kh kw sum.
           let ih_local = oh * stride cfg + kh;
               iw_local = ow * stride cfg + kw;
               in_idx = ic * ?TH * ?TW + ih_local * ?TW + iw_local;
               w_idx = oc * ?IC * kernel_size cfg * kernel_size cfg +
                       ic * kernel_size cfg * kernel_size cfg +
                       kh * kernel_size cfg + kw
           in ap_sat 32 (sum + buf_read inp in_idx * buf_read wt w_idx)"
  let ?g = "\<lambda>ic kh kw sum.
           let ih = (oh_start + oh) * stride cfg + kh - padding cfg;
               iw = (ow_start + ow) * stride cfg + kw - padding cfg
           in if ih \<ge> 0 \<and> ih < in_height cfg \<and> iw \<ge> 0 \<and> iw < in_width cfg
              then ap_sat 32 (sum +
                     input_fm (ic * in_height cfg * in_width cfg + ih * in_width cfg + iw) *
                     weights ((oc_start + oc) * in_channels cfg * kernel_size cfg * kernel_size cfg +
                              ic * kernel_size cfg * kernel_size cfg +
                              kh * kernel_size cfg + kw))
              else sum"
  have cell: "?f ic kh kw t = ?g (ic_start + ic) kh kw t \<and> ?ok (?f ic kh kw t)"
    if r: "0 \<le> ic" "ic < ?IC" "0 \<le> kh" "kh < K" "0 \<le> kw" "kw < K" and t: "?ok t" for ic kh kw t
  proof -
    have th: "?TH = (oh_end - oh_start - 1) * S + K" "?TW = (ow_end - ow_start - 1) * S + K"
      unfolding geo by (simp_all add: algebra_simps)
    have "oh * S \<le> (oh_end - oh_start - 1) * S" using loc S by (intro mult_right_mono) simp_all
    then have hr: "0 \<le> oh * S + kh" "oh * S + kh < ?TH" using r loc S unfolding th by simp_all
    have "ow * S \<le> (ow_end - ow_start - 1) * S" using loc S by (intro mult_right_mono) simp_all
    then have wr: "0 \<le> ow * S + kw" "ow * S + kw < ?TW" using r loc S unfolding th by simp_all
    have i1: "buf_read inp (ic * ?TH * ?TW + (oh * S + kh) * ?TW + (ow * S + kw))
        = (if 0 \<le> ih_start + (oh * S + kh) \<and> ih_start + (oh * S + kh) < in_height cfg
              \<and> 0 \<le> iw_start + (ow * S + kw) \<and> iw_start + (ow * S + kw) < in_width cfg
           then input_fm ((ic_start + ic) * in_height cfg * in_width cfg
                  + (ih_start + (oh * S + kh)) * in_width cfg + (iw_start + (ow * S + kw))) else 0)"
      using inp [rule_format, of "ic_start + ic" "ih_start + (oh * S + kh)" "iw_start + (ow * S + kw)"]
        r hr wr by simp
    have e: "ih_start + (oh * S + kh) = (oh_start + oh) * S + kh - P"
      "iw_start + (ow * S + kw) = (ow_start + ow) * S + kw - P"
      unfolding geo by (simp_all add: algebra_simps)
    have w1: "buf_read wt (oc * ?IC * K * K + ic * K * K + kh * K + kw)
        = weights ((oc_start + oc) * in_channels cfg * K * K + (ic_start + ic) * K * K + kh * K + kw)"
      using wt [rule_format, of "oc_start + oc" "ic_start + ic" kh kw] r loc
      unfolding K_def by simp
    have "?f ic kh kw t = ?g (ic_start + ic) kh kw t"
      using t i1 w1 unfolding e unfolding K_def S_def P_def
      by (simp add: Let_def ap_sat32_id)
    moreover have "?ok (?f ic kh kw t)"
      by (simp add: Let_def ap_sat32_range)
    ultimately show ?thesis by blast
  qed
  have l3: "for_loop 0 K (?f ic kh) t = for_loop 0 K (?g (ic_start + ic) kh) t \<and> ?ok (for_loop 0 K (?f ic kh) t)"
    if r: "0 \<le> ic" "ic < ?IC" "0 \<le> kh" "kh < K" and t: "?ok t" for ic kh t
  proof
    show "for_loop 0 K (?f ic kh) t = for_loop 0 K (?g (ic_start + ic) kh) t"
      by (rule for_loop_cong [where P = ?ok]) (use cell r t in blast)+
    show "?ok (for_loop 0 K (?f ic kh) t)"
      by (rule for_loop_pres [where P = ?ok]) (use cell r t in blast)+
  qed
  have l2: "for_loop 0 K (\<lambda>kh. for_loop 0 K (?f ic kh)) t
          = for_loop 0 K (\<lambda>kh. for_loop 0 K (?g (ic_start + ic) kh)) t
        \<and> ?ok (for_loop 0 K (\<lambda>kh. for_loop 0 K (?f ic kh)) t)"
    if r: "0 \<le> ic" "ic < ?IC" and t: "?ok t" for ic t
  proof
    show "for_loop 0 K (\<lambda>kh. for_loop 0 K (?f ic kh)) t
          = for_loop 0 K (\<lambda>kh. for_loop 0 K (?g (ic_start + ic) kh)) t"
      by (rule for_loop_cong [where P = ?ok]) (use l3 r t in blast)+
    show "?ok (for_loop 0 K (\<lambda>kh. for_loop 0 K (?f ic kh)) t)"
      by (rule for_loop_pres [where P = ?ok]) (use l3 r t in blast)+
  qed
  have "for_loop 0 ?IC (\<lambda>ic. for_loop 0 K (\<lambda>kh. for_loop 0 K (?f ic kh))) s
      = for_loop 0 ?IC (\<lambda>ic. for_loop 0 K (\<lambda>kh. for_loop 0 K (?g (ic_start + ic) kh))) s"
    by (rule for_loop_cong [where P = ?ok]) (use l2 s in blast)+
  also have "\<dots> = for_loop ic_start ic_end (\<lambda>ic. for_loop 0 K (\<lambda>kh. for_loop 0 K (?g ic kh))) s"
    by (rule for_loop_shift [symmetric])
  finally show ?thesis
    unfolding tile_mac_def conv_mac_range_def K_def .
qed

section \<open>The output writer\<close>

lemma scatter_inv_init:
  assumes "\<And>x. R x \<Longrightarrow> 0 \<le> pos x"
  shows "scatter_inv R pos addr M s0 0 s0"
  using assms unfolding scatter_inv_def by (auto simp: not_less [symmetric])

lemma scatter_inv_step:
  assumes pinj: "\<And>y. R y \<Longrightarrow> pos y = pos x \<Longrightarrow> y = x"
    and ainj: "\<And>y. R y \<Longrightarrow> addr y = addr x \<Longrightarrow> y = x"
    and x: "R x"
    and inv: "scatter_inv R pos addr M s0 (pos x) s"
  shows "scatter_inv R pos addr M s0 (pos x + 1) (s(addr x := M x))"
proof -
  have 1: "(s(addr x := M x)) (addr y) = M y" if "R y" "pos y < pos x + 1" for y
  proof (cases "addr y = addr x")
    case True
    then have "y = x" using ainj that by blast
    then show ?thesis by simp
  next
    case False
    then have "y \<noteq> x" by blast
    then have "pos y \<noteq> pos x" using pinj that by blast
    then have "pos y < pos x" using that by simp
    then have "s (addr y) = M y" using inv that unfolding scatter_inv_def by blast
    then show ?thesis using False by simp
  qed
  have 2: "(s(addr x := M x)) j = s0 j" if "\<forall>y. R y \<longrightarrow> addr y \<noteq> j" for j
  proof -
    have "j \<noteq> addr x" using that x by blast
    moreover have "s j = s0 j" using inv that unfolding scatter_inv_def by blast
    ultimately show ?thesis by simp
  qed
  show ?thesis unfolding scatter_inv_def using 1 2 by blast
qed

lemma write_output_fill:
  assumes le: "0 \<le> oc_count" "oh_start \<le> oh_end" "ow_start \<le> ow_end"
    and glob: "0 \<le> oh_start" "oh_end \<le> OH" "0 \<le> ow_start" "ow_end \<le> OW"
  shows "(\<forall>oc oh ow. 0 \<le> oc \<and> oc < oc_count \<and> 0 \<le> oh \<and> oh < oh_end - oh_start \<and> 0 \<le> ow \<and> ow < ow_end - ow_start
            \<longrightarrow> write_output cfg bn_scale bn_shift oc_start oc_count oh_start oh_end ow_start ow_end OH OW acc out0
                  ((oc_start + oc) * OH * OW + (oh_start + oh) * OW + (ow_start + ow))
                = bn_act cfg (buf_read acc (oc * (oh_end - oh_start) * (ow_end - ow_start) + oh * (ow_end - ow_start) + ow))
                    (if layer_type cfg \<noteq> 2 then bn_scale (oc_start + oc) else 256)
                    (if layer_type cfg \<noteq> 2 then bn_shift (oc_start + oc) else 0))
       \<and> (\<forall>j. (\<forall>oc oh ow. 0 \<le> oc \<and> oc < oc_count \<and> 0 \<le> oh \<and> oh < oh_end - oh_start \<and> 0 \<le> ow \<and> ow < ow_end - ow_start
                  \<longrightarrow> (oc_start + oc) * OH * OW + (oh_start + oh) * OW + (ow_start + ow) \<noteq> j)
            \<longrightarrow> write_output cfg bn_scale bn_shift oc_start oc_count oh_start oh_end ow_start ow_end OH OW acc out0 j
                = out0 j)"
proof -
  let ?B = "oh_end - oh_start" and ?C = "ow_end - ow_start"
  define R where "R = (\<lambda>(oc, oh, ow). 0 \<le> oc \<and> oc < oc_count \<and> 0 \<le> oh \<and> oh < ?B \<and> 0 \<le> ow \<and> ow < ?C)"
  define pos where "pos = (\<lambda>(oc, oh, ow). oc * ?B * ?C + oh * ?C + ow)"
  define addr where "addr = (\<lambda>(oc, oh, ow). (oc_start + oc) * OH * OW + (oh_start + oh) * OW + (ow_start + ow))"
  define M where "M = (\<lambda>(oc, oh, ow). bn_act cfg (buf_read acc (oc * ?B * ?C + oh * ?C + ow))
                    (if layer_type cfg \<noteq> 2 then bn_scale (oc_start + oc) else 256)
                    (if layer_type cfg \<noteq> 2 then bn_shift (oc_start + oc) else 0))"
  define Inv where "Inv = scatter_inv R pos addr M out0"
  have nn: "0 \<le> ?B" "0 \<le> ?C" using le by simp_all
  have pos_nn: "0 \<le> pos x" if "R x" for x
    using that nn unfolding R_def pos_def by (auto intro!: add_nonneg_nonneg mult_nonneg_nonneg)
  have pos_lt: "pos x < oc_count * ?B * ?C" if "R x" for x
    using that unfolding R_def pos_def by (auto intro!: flat3_lt)
  have pos_inj: "y = x" if "R y" "R x" "pos y = pos x" for x y
  proof -
    obtain a b c where x: "x = (a, b, c)" by (cases x) auto
    obtain a' b' c' where y: "y = (a', b', c')" by (cases y) auto
    have "a' = a \<and> b' = b \<and> c' = c"
      using that unfolding x y R_def pos_def by (intro flat3_inj [where B = ?B and C = ?C]) auto
    then show ?thesis unfolding x y by simp
  qed
  have addr_inj: "y = x" if "R y" "R x" "addr y = addr x" for x y
  proof -
    obtain a b c where x: "x = (a, b, c)" by (cases x) auto
    obtain a' b' c' where y: "y = (a', b', c')" by (cases y) auto
    have "oc_start + a' = oc_start + a \<and> oh_start + b' = oh_start + b \<and> ow_start + c' = ow_start + c"
      using that glob unfolding x y R_def addr_def by (intro flat3_inj [where B = OH and C = OW]) auto
    then show ?thesis unfolding x y by simp
  qed
  have init: "Inv 0 out0"
    unfolding Inv_def using scatter_inv_init [of R pos addr M out0] pos_nn by simp
  have step: "Inv (a * ?B * ?C + b * ?C + c + 1)
      (let tile_idx = a * ?B * ?C + b * ?C + c;
           result = bn_act cfg (buf_read acc tile_idx)
                      (if layer_type cfg \<noteq> 2 then bn_scale (oc_start + a) else 256)
                      (if layer_type cfg \<noteq> 2 then bn_shift (oc_start + a) else 0);
           out_idx = (oc_start + a) * OH * OW + (oh_start + b) * OW + (ow_start + c)
       in s(out_idx := result))"
    if r: "0 \<le> a" "a < oc_count" "0 \<le> b" "b < ?B" "0 \<le> c" "c < ?C"
      and i: "Inv (a * ?B * ?C + b * ?C + c) s" for a b c s
  proof -
    have Rx: "R (a, b, c)" using r by (simp add: R_def)
    have px: "pos (a, b, c) = a * ?B * ?C + b * ?C + c"
      by (simp add: pos_def)
    have f: "scatter_inv R pos addr M out0 (pos (a, b, c)) s"
      using i unfolding Inv_def px by simp
    have "scatter_inv R pos addr M out0 (pos (a, b, c) + 1) (s(addr (a, b, c) := M (a, b, c)))"
      using pos_inj [OF _ Rx] addr_inj [OF _ Rx] Rx f by (rule scatter_inv_step)
    then show ?thesis
      unfolding Inv_def px by (simp add: M_def addr_def Let_def)
  qed
  have "Inv (oc_count * ?B * ?C)
      (write_output cfg bn_scale bn_shift oc_start oc_count oh_start oh_end ow_start ow_end OH OW acc out0)"
    unfolding write_output_def Let_def
    using for_loop3_inv [where Inv = Inv, OF le(1) nn init step [unfolded Let_def]] by simp
  then have f: "scatter_inv R pos addr M out0 (oc_count * ?B * ?C)
      (write_output cfg bn_scale bn_shift oc_start oc_count oh_start oh_end ow_start ow_end OH OW acc out0)"
    unfolding Inv_def by simp
  have "write_output cfg bn_scale bn_shift oc_start oc_count oh_start oh_end ow_start ow_end OH OW acc out0 (addr x) = M x"
    if "R x" for x
    using f that pos_lt [OF that] unfolding scatter_inv_def by blast
  then have 1: "\<forall>oc oh ow. R (oc, oh, ow) \<longrightarrow>
     write_output cfg bn_scale bn_shift oc_start oc_count oh_start oh_end ow_start ow_end OH OW acc out0 (addr (oc, oh, ow)) = M (oc, oh, ow)"
    by blast
  have 2: "\<forall>j. (\<forall>oc oh ow. R (oc, oh, ow) \<longrightarrow> addr (oc, oh, ow) \<noteq> j) \<longrightarrow>
     write_output cfg bn_scale bn_shift oc_start oc_count oh_start oh_end ow_start ow_end OH OW acc out0 j = out0 j"
    using f unfolding scatter_inv_def by auto
  show ?thesis
    using 1 2 unfolding R_def pos_def M_def addr_def by simp
qed

section \<open>Tile arithmetic\<close>

lemma mult3_mono:
  fixes a b c a' b' c' :: int
  assumes "0 \<le> a" "a \<le> a'" "0 \<le> b" "b \<le> b'" "0 \<le> c" "c \<le> c'"
  shows "a * b * c \<le> a' * b' * c'"
proof -
  have "a * b \<le> a' * b'" using assms by (intro mult_mono) simp_all
  moreover have "0 \<le> a' * b'" using assms by simp
  ultimately show ?thesis using assms by (intro mult_mono) simp_all
qed

lemma mult4_mono:
  fixes a b c d a' b' c' d' :: int
  assumes "0 \<le> a" "a \<le> a'" "0 \<le> b" "b \<le> b'" "0 \<le> c" "c \<le> c'" "0 \<le> d" "d \<le> d'"
  shows "a * b * c * d \<le> a' * b' * c' * d'"
proof -
  have "a * b * c \<le> a' * b' * c'" using assms by (intro mult3_mono) simp_all
  moreover have "0 \<le> a' * b' * c'" using assms by simp
  ultimately show ?thesis using assms by (intro mult_mono) simp_all
qed

text \<open>The number of tiles \<open>(n + T - 1) / T\<close> of size \<open>T\<close> covering \<open>n\<close> elements.\<close>

lemma tiles_count:
  assumes "0 \<le> n" "0 < T"
  shows "cdiv (n + T - 1) T = (n + T - 1) div T"
    and "0 \<le> (n + T - 1) div T"
    and "n \<le> (n + T - 1) div T * T"
    and "\<And>t. t < (n + T - 1) div T \<Longrightarrow> t * T < n"
proof -
  let ?q = "(n + T - 1) div T"
  show "cdiv (n + T - 1) T = ?q" using assms by (intro cdiv_nonneg) simp_all
  show "0 \<le> ?q" using assms by (simp add: pos_imp_zdiv_nonneg_iff)
  have e: "?q * T + (n + T - 1) mod T = n + T - 1" by (rule div_mult_mod_eq)
  have m: "0 \<le> (n + T - 1) mod T" "(n + T - 1) mod T < T" using assms by simp_all
  show "n \<le> ?q * T" using e m by linarith
  fix t assume "t < ?q"
  then have "t + 1 \<le> ?q" by simp
  then have "(t + 1) * T \<le> ?q * T" using assms by (intro mult_right_mono) simp_all
  then have "t * T + T \<le> ?q * T" by (simp add: algebra_simps)
  then show "t * T < n" using e m by linarith
qed

lemma tiles_count_nonpos:
  assumes "n \<le> 0" "0 < T"
  shows "cdiv (n + T - 1) T \<le> 0"
proof (cases "0 \<le> n + T - 1")
  case True
  then have "cdiv (n + T - 1) T = (n + T - 1) div T" using assms by (intro cdiv_nonneg) simp_all
  moreover have "(n + T - 1) div T = 0" using True assms by (intro div_pos_pos_trivial) simp_all
  ultimately show ?thesis by simp
next
  case False
  then have "sgn (n + T - 1) = - 1" by simp
  moreover have "sgn T = 1" using assms by simp
  moreover have "0 \<le> \<bar>n + T - 1\<bar> div \<bar>T\<bar>" using assms by (simp add: pos_imp_zdiv_nonneg_iff)
  ultimately show ?thesis by (simp add: cdiv_def)
qed

lemma tile_of_element:
  fixes x n T :: int
  assumes "0 \<le> x" "x < n" "0 < T"
  shows "0 \<le> x div T" "x div T < (n + T - 1) div T"
    and "x div T * T \<le> x"
    and "x < (if x div T * T + T > n then n else x div T * T + T)"
proof -
  have e: "x div T * T + x mod T = x" by (rule div_mult_mod_eq)
  have m: "0 \<le> x mod T" "x mod T < T" using assms by simp_all
  show "0 \<le> x div T" using assms by (simp add: pos_imp_zdiv_nonneg_iff)
  show "x div T < (n + T - 1) div T"
  proof (rule ccontr)
    assume "\<not> x div T < (n + T - 1) div T"
    then have "(n + T - 1) div T \<le> x div T" by simp
    then have "(n + T - 1) div T * T \<le> x div T * T" using assms by (intro mult_right_mono) simp_all
    moreover have "n \<le> (n + T - 1) div T * T" using assms by (intro tiles_count(3)) simp_all
    ultimately show False using e m assms by linarith
  qed
  show "x div T * T \<le> x" using e m by linarith
  have "x < x div T * T + T" using e m by linarith
  then show "x < (if x div T * T + T > n then n else x div T * T + T)" using assms by simp
qed

lemma tile_unique:
  fixes x t T :: int
  assumes "t * T \<le> x" "x < t * T + T" "0 < T"
  shows "t = x div T"
proof -
  have "x = t * T + (x - t * T)" by simp
  moreover have "0 \<le> x - t * T" "x - t * T < T" using assms by simp_all
  ultimately have "x div T = t + (x - t * T) div T"
    by (metis assms(3) div_mult_self3 less_irrefl add.commute)
  moreover have "(x - t * T) div T = 0" using \<open>0 \<le> x - t * T\<close> \<open>x - t * T < T\<close>
    by (intro div_pos_pos_trivial)
  ultimately show ?thesis by simp
qed

section \<open>One output tile\<close>

lemma ic_tile_pass_acc:
  fixes ts :: tile_sizes and cfg :: layer_config and oc_t oh_t ow_t :: int
  defines "K \<equiv> kernel_size cfg" and "S \<equiv> stride cfg" and "T \<equiv> TILE_CH ts"
    and "CI \<equiv> min (TILE_CH ts) (in_channels cfg)"
  assumes cfgok: "0 \<le> S" "0 \<le> K" "0 < T"
    and tile: "0 \<le> oc_end - oc_start" "oc_end - oc_start \<le> T"
      "1 \<le> oh_end - oh_start" "oh_end - oh_start \<le> TILE_H ts"
      "1 \<le> ow_end - ow_start" "ow_end - ow_start \<le> TILE_W ts"
    and fit_in: "CI * ((oh_end - oh_start - 1) * S + K) * ((ow_end - ow_start - 1) * S + K) \<le> INPUT_TILE_SIZE ts"
    and fit_w: "(oc_end - oc_start) * CI * K * K \<le> WEIGHT_BUF_SIZE ts"
    and t: "0 \<le> ic_t" "ic_t * T < in_channels cfg"
    and bufs: "buffers_ok ts st"
    and acc: "acc_holds input_fm weights cfg oc_start oc_end oh_start oh_end ow_start ow_end (ic_t * T) (acc_tile st)"
  defines "st' \<equiv> ic_tile_pass ts input_fm weights cfg oc_t oh_t ow_t oc_start oc_end oh_start oh_end
       ow_start ow_end ic_t st"
  shows "buffers_ok ts st'" and "output_fm st' = output_fm st" and "status st' = status st"
    and "acc_holds input_fm weights cfg oc_start oc_end oh_start oh_end ow_start ow_end
           (min ((ic_t + 1) * T) (in_channels cfg)) (acc_tile st')"
proof -
  let ?th = "oh_end - oh_start" and ?tw = "ow_end - ow_start" and ?oc = "oc_end - oc_start"
  define ic_start where "ic_start = ic_t * T"
  define ic_end where "ic_end = (if ic_start + T > in_channels cfg then in_channels cfg else ic_start + T)"
  define ih_start where "ih_start = oh_start * S - padding cfg"
  define ih_end where "ih_end = (oh_end - 1) * S + K - padding cfg"
  define iw_start where "iw_start = ow_start * S - padding cfg"
  define iw_end where "iw_end = (ow_end - 1) * S + K - padding cfg"
  define inp where "inp = load_input input_fm cfg ic_start ic_end ih_start ih_end iw_start iw_end (input_tile st)"
  define wt where "wt = load_weights weights cfg oc_start oc_end ic_start ic_end (weight_tile st)"
  define acc' where "acc' = compute_tile cfg ?oc oh_start oh_end ow_start ow_end
                        (ic_end - ic_start) (ih_end - ih_start) (iw_end - iw_start) inp wt (acc_tile st)"
  have st': "st' = st\<lparr>input_tile := inp, weight_tile := wt, acc_tile := acc',
             events := events st @ [AccTileAdded oc_t oh_t ow_t ic_t]\<rparr>"
    unfolding st'_def ic_tile_pass_def Let_def acc'_def wt_def inp_def ic_end_def ic_start_def
      ih_start_def ih_end_def iw_start_def iw_end_def K_def S_def T_def ..
  have ic0: "0 \<le> ic_start" using t cfgok by (simp add: ic_start_def)
  have iclt: "ic_start < in_channels cfg" using t by (simp add: ic_start_def)
  have nxt: "(ic_t + 1) * T = ic_start + T" by (simp add: ic_start_def algebra_simps)
  have ic1: "ic_start \<le> ic_end" "ic_end - ic_start \<le> CI" "0 \<le> ic_end - ic_start"
    "ic_end = min ((ic_t + 1) * T) (in_channels cfg)"
    using iclt cfgok(3) ic0 unfolding nxt ic_end_def CI_def T_def [symmetric]
    by (simp_all add: min_def)
  have tih: "ih_end - ih_start = (?th - 1) * S + K" "iw_end - iw_start = (?tw - 1) * S + K"
    unfolding ih_end_def ih_start_def iw_end_def iw_start_def by (simp_all add: algebra_simps)
  have tnn: "0 \<le> (?th - 1) * S + K" "0 \<le> (?tw - 1) * S + K"
    using tile cfgok by simp_all
  have ihle: "ih_start \<le> ih_end" "iw_start \<le> iw_end" using tih tnn by simp_all
  have len: "int (length (input_tile st)) = INPUT_TILE_SIZE ts"
    "int (length (weight_tile st)) = WEIGHT_BUF_SIZE ts"
    "int (length (acc_tile st)) = OUTPUT_TILE_SIZE ts"
    using bufs by (simp_all add: buffers_ok_def)
  have "(ic_end - ic_start) * ((?th - 1) * S + K) * ((?tw - 1) * S + K)
       \<le> CI * ((?th - 1) * S + K) * ((?tw - 1) * S + K)"
    using ic1 tnn by (intro mult3_mono) simp_all
  then have fin: "(ic_end - ic_start) * (ih_end - ih_start) * (iw_end - iw_start) \<le> int (length (input_tile st))"
    using fit_in unfolding tih len by simp
  have "?oc * (ic_end - ic_start) * K * K \<le> ?oc * CI * K * K"
    using ic1 tile cfgok by (intro mult4_mono) simp_all
  then have fw: "?oc * (ic_end - ic_start) * kernel_size cfg * kernel_size cfg \<le> int (length (weight_tile st))"
    using fit_w unfolding len K_def by simp
  have "?oc * ?th * ?tw \<le> T * TILE_H ts * TILE_W ts"
    using tile by (intro mult3_mono) simp_all
  then have fa: "?oc * ?th * ?tw \<le> int (length (acc_tile st))"
    unfolding len OUTPUT_TILE_SIZE_def T_def .
  note li = load_input_fill [OF ic1(1) ihle fin, of input_fm cfg, folded inp_def]
  have ocle: "oc_start \<le> oc_end" using tile by simp
  have k0: "0 \<le> kernel_size cfg" using cfgok by (simp add: K_def)
  note lw = load_weights_fill [OF ocle ic1(1) k0 fw, of weights, folded wt_def]
  have ohle: "oh_start \<le> oh_end" "ow_start \<le> ow_end" using tile by simp_all
  note ct = compute_tile_fill [OF tile(1) ohle fa, of cfg "ic_end - ic_start" "ih_end - ih_start"
      "iw_end - iw_start" inp wt, folded acc'_def]
  show "buffers_ok ts st'"
    using li lw ct len unfolding st' buffers_ok_def by simp
  show "output_fm st' = output_fm st" unfolding st' by simp
  show "status st' = status st" unfolding st' by simp
  have cellok: "- 2147483648 \<le> conv_mac_range input_fm weights cfg a b c 0 ic_start 0
      \<and> conv_mac_range input_fm weights cfg a b c 0 ic_start 0 \<le> 2147483647" for a b c
    by (rule conv_mac_range_ok) simp
  have "buf_read acc' (oc * ?th * ?tw + oh * ?tw + ow)
      = conv_mac_range input_fm weights cfg (oc_start + oc) (oh_start + oh) (ow_start + ow) 0 ic_end 0"
    if r: "0 \<le> oc" "oc < ?oc" "0 \<le> oh" "oh < ?th" "0 \<le> ow" "ow < ?tw" for oc oh ow
  proof -
    have old: "buf_read (acc_tile st) (oc * ?th * ?tw + oh * ?tw + ow)
      = conv_mac_range input_fm weights cfg (oc_start + oc) (oh_start + oh) (ow_start + ow) 0 ic_start 0"
      using acc r unfolding acc_holds_def ic_start_def by blast
    have "buf_read acc' (oc * ?th * ?tw + oh * ?tw + ow)
        = tile_mac cfg (ic_end - ic_start) (ih_end - ih_start) (iw_end - iw_start) inp wt oc oh ow
            (buf_read (acc_tile st) (oc * ?th * ?tw + oh * ?tw + ow))"
      using ct r by blast
    also have "\<dots> = conv_mac_range input_fm weights cfg (oc_start + oc) (oh_start + oh) (ow_start + ow)
          ic_start ic_end (conv_mac_range input_fm weights cfg (oc_start + oc) (oh_start + oh) (ow_start + ow) 0 ic_start 0)"
      unfolding old
      by (rule tile_mac_conv [OF ih_start_def [unfolded S_def] ih_end_def [unfolded S_def K_def]
            iw_start_def [unfolded S_def] iw_end_def [unfolded S_def K_def] cfgok(1) [unfolded S_def]
            li [THEN conjunct2] lw [THEN conjunct2] r cellok])
    also have "\<dots> = conv_mac_range input_fm weights cfg (oc_start + oc) (oh_start + oh) (ow_start + ow) 0 ic_end 0"
      using ic0 ic1(1) by (rule conv_mac_range_split)
    finally show ?thesis .
  qed
  then show "acc_holds input_fm weights cfg oc_start oc_end oh_start oh_end ow_start ow_end
           (min ((ic_t + 1) * T) (in_channels cfg)) (acc_tile st')"
    unfolding acc_holds_def st' ic1(4) [symmetric] by simp
qed

lemma ic_tile_loop_acc:
  fixes ts :: tile_sizes and cfg :: layer_config and oc_t oh_t ow_t :: int
  defines "K \<equiv> kernel_size cfg" and "S \<equiv> stride cfg" and "T \<equiv> TILE_CH ts"
    and "CI \<equiv> min (TILE_CH ts) (in_channels cfg)"
  assumes cfgok: "0 \<le> S" "0 \<le> K" "0 < T" "0 \<le> in_channels cfg"
    and tile: "0 \<le> oc_end - oc_start" "oc_end - oc_start \<le> T"
      "1 \<le> oh_end - oh_start" "oh_end - oh_start \<le> TILE_H ts"
      "1 \<le> ow_end - ow_start" "ow_end - ow_start \<le> TILE_W ts"
    and fit_in: "CI * ((oh_end - oh_start - 1) * S + K) * ((ow_end - ow_start - 1) * S + K) \<le> INPUT_TILE_SIZE ts"
    and fit_w: "(oc_end - oc_start) * CI * K * K \<le> WEIGHT_BUF_SIZE ts"
    and bufs: "buffers_ok ts st"
    and acc: "acc_holds input_fm weights cfg oc_start oc_end oh_start oh_end ow_start ow_end 0 (acc_tile st)"
  defines "st' \<equiv> for_loop 0 (cdiv (in_channels cfg + TILE_CH ts - 1) (TILE_CH ts))
       (ic_tile_pass ts input_fm weights cfg oc_t oh_t ow_t oc_start oc_end oh_start oh_end ow_start ow_end) st"
  shows "buffers_ok ts st'" and "output_fm st' = output_fm st" and "status st' = status st"
    and "acc_holds input_fm weights cfg oc_start oc_end oh_start oh_end ow_start ow_end
           (in_channels cfg) (acc_tile st')"
proof -
  let ?n = "(in_channels cfg + T - 1) div T"
  note tc = tiles_count [OF cfgok(4,3)]
  define P where "P = (\<lambda>t s. buffers_ok ts s \<and> output_fm s = output_fm st \<and> status s = status st
     \<and> acc_holds input_fm weights cfg oc_start oc_end oh_start oh_end ow_start ow_end
           (min (t * T) (in_channels cfg)) (acc_tile s))"
  have init: "P 0 st"
    unfolding P_def using bufs acc cfgok(4) by simp
  have step: "P (t + 1) (ic_tile_pass ts input_fm weights cfg oc_t oh_t ow_t oc_start oc_end oh_start oh_end ow_start ow_end t s)"
    if t: "0 \<le> t" "t < ?n" and p: "P t s" for t s
  proof -
    have lt: "t * T < in_channels cfg" using tc(4) t by blast
    then have m: "min (t * T) (in_channels cfg) = t * T" by simp
    have b: "buffers_ok ts s" and a: "acc_holds input_fm weights cfg oc_start oc_end oh_start oh_end ow_start ow_end (t * T) (acc_tile s)"
      using p unfolding P_def m by simp_all
    note r = ic_tile_pass_acc [OF cfgok(1,2,3) [unfolded S_def K_def T_def] tile [unfolded T_def]
        fit_in [unfolded CI_def S_def K_def] fit_w [unfolded CI_def K_def] t(1) lt [unfolded T_def] b a [unfolded T_def],
        of oc_t oh_t ow_t]
    show ?thesis
      unfolding P_def using r p unfolding P_def T_def by simp
  qed
  have "P ?n st'"
    unfolding st'_def T_def [symmetric] unfolding tc(1)
    by (rule for_loop_inv [where P = P, OF init step tc(2)])
  moreover have "min (?n * T) (in_channels cfg) = in_channels cfg" using tc(3) by simp
  ultimately show "buffers_ok ts st'" and "output_fm st' = output_fm st" and "status st' = status st"
    and "acc_holds input_fm weights cfg oc_start oc_end oh_start oh_end ow_start ow_end
           (in_channels cfg) (acc_tile st')"
    unfolding P_def by simp_all
qed

lemma output_tile_pass_result:
  fixes ts :: tile_sizes and cfg :: layer_config and oc_t oh_t ow_t OH OW :: int
    and input_fm weights bn_scale bn_shift :: ddr
  defines "K \<equiv> kernel_size cfg" and "S \<equiv> stride cfg" and "T \<equiv> TILE_CH ts"
    and "CI \<equiv> min (TILE_CH ts) (in_channels cfg)"
    and "ow_start \<equiv> ow_t * TILE_W ts"
  defines "ow_end \<equiv> (if ow_start + TILE_W ts > OW then OW else ow_start + TILE_W ts)"
  assumes cfgok: "0 \<le> S" "0 \<le> K" "0 < T" "0 \<le> in_channels cfg" "0 < TILE_W ts"
    and tile: "0 \<le> oc_end - oc_start" "oc_end - oc_start \<le> T"
      "1 \<le> oh_end - oh_start" "oh_end - oh_start \<le> TILE_H ts" "0 \<le> oh_start" "oh_end \<le> OH"
      "0 \<le> ow_t" "ow_t * TILE_W ts < OW"
    and fit_in: "CI * ((oh_end - oh_start - 1) * S + K) * ((min (TILE_W ts) OW - 1) * S + K) \<le> INPUT_TILE_SIZE ts"
    and fit_w: "(oc_end - oc_start) * CI * K * K \<le> WEIGHT_BUF_SIZE ts"
    and bufs: "buffers_ok ts st"
  defines "st' \<equiv> output_tile_pass ts input_fm weights bn_scale bn_shift cfg OH OW
       (cdiv (in_channels cfg + TILE_CH ts - 1) (TILE_CH ts)) oc_t oc_start oc_end oh_t oh_start oh_end ow_t st"
  shows "buffers_ok ts st'" and "status st' = status st"
    and "\<And>oc oh ow. oc_start \<le> oc \<Longrightarrow> oc < oc_end \<Longrightarrow> oh_start \<le> oh \<Longrightarrow> oh < oh_end
          \<Longrightarrow> ow_start \<le> ow \<Longrightarrow> ow < ow_end
          \<Longrightarrow> output_fm st' (oc * OH * OW + oh * OW + ow)
              = conv_direct_out input_fm weights bn_scale bn_shift cfg oc oh ow"
    and "\<And>j. (\<And>oc oh ow. oc_start \<le> oc \<Longrightarrow> oc < oc_end \<Longrightarrow> oh_start \<le> oh \<Longrightarrow> oh < oh_end
          \<Longrightarrow> ow_start \<le> ow \<Longrightarrow> ow < ow_end \<Longrightarrow> oc * OH * OW + oh * OW + ow \<noteq> j)
          \<Longrightarrow> output_fm st' j = output_fm st j"
proof -
  let ?th = "oh_end - oh_start" and ?tw = "ow_end - ow_start" and ?oc = "oc_end - oc_start"
  have ow0: "0 \<le> ow_start" using tile cfgok by (simp add: ow_start_def)
  have ow1: "1 \<le> ?tw" "?tw \<le> TILE_W ts" "ow_end \<le> OW" "?tw \<le> min (TILE_W ts) OW"
    using tile(8) cfgok(5) ow0 unfolding ow_end_def ow_start_def [symmetric]
    by (simp_all add: min_def)
  define st1 where "st1 = st\<lparr>acc_tile := init_acc (?oc * ?th * ?tw) (acc_tile st),
                    events := events st @ [AccZeroed oc_t oh_t ow_t]\<rparr>"
  define st2 where "st2 = for_loop 0 (cdiv (in_channels cfg + TILE_CH ts - 1) (TILE_CH ts))
                  (ic_tile_pass ts input_fm weights cfg oc_t oh_t ow_t oc_start oc_end
                     oh_start oh_end ow_start ow_end) st1"
  have st': "st' = st2\<lparr>output_fm := write_output cfg bn_scale bn_shift oc_start ?oc
                              oh_start oh_end ow_start ow_end OH OW
                              (acc_tile st2) (output_fm st2),
              events := events st2 @ [TileWritten oc_t oh_t ow_t]\<rparr>"
    unfolding st'_def output_tile_pass_def Let_def st2_def st1_def ow_end_def ow_start_def ..
  have len: "int (length (acc_tile st)) = OUTPUT_TILE_SIZE ts"
    using bufs by (simp add: buffers_ok_def)
  have "?oc * ?th * ?tw \<le> T * TILE_H ts * TILE_W ts"
    using tile ow1 by (intro mult3_mono) simp_all
  then have fa: "?oc * ?th * ?tw \<le> int (length (acc_tile st))"
    unfolding len OUTPUT_TILE_SIZE_def T_def .
  have b1: "buffers_ok ts st1"
    using bufs unfolding st1_def buffers_ok_def by simp
  have a1: "acc_holds input_fm weights cfg oc_start oc_end oh_start oh_end ow_start ow_end 0 (acc_tile st1)"
    unfolding acc_holds_def
  proof (intro allI impI)
    fix oc oh ow
    assume r: "0 \<le> oc \<and> oc < ?oc \<and> 0 \<le> oh \<and> oh < ?th \<and> 0 \<le> ow \<and> ow < ?tw"
    have "0 \<le> oc * ?th * ?tw + oh * ?tw + ow"
      using r tile ow1 by (intro add_nonneg_nonneg mult_nonneg_nonneg) simp_all
    moreover have "oc * ?th * ?tw + oh * ?tw + ow < ?oc * ?th * ?tw"
      using r by (intro flat3_lt) simp_all
    ultimately have "buf_read (init_acc (?oc * ?th * ?tw) (acc_tile st)) (oc * ?th * ?tw + oh * ?tw + ow) = 0"
      using fa by (intro init_acc_zero)
    then show "buf_read (acc_tile st1) (oc * ?th * ?tw + oh * ?tw + ow)
        = conv_mac_range input_fm weights cfg (oc_start + oc) (oh_start + oh) (ow_start + ow) 0 0 0"
      unfolding st1_def by (simp add: conv_mac_range_empty)
  qed
  have tnn: "0 \<le> (?th - 1) * S + K" "0 \<le> CI" using tile cfgok by (simp_all add: CI_def T_def)
  have "(?tw - 1) * S \<le> (min (TILE_W ts) OW - 1) * S"
    using ow1 cfgok by (intro mult_right_mono) simp_all
  then have "CI * ((?th - 1) * S + K) * ((?tw - 1) * S + K)
      \<le> CI * ((?th - 1) * S + K) * ((min (TILE_W ts) OW - 1) * S + K)"
    using tnn ow1 cfgok by (intro mult3_mono) simp_all
  then have fit_in': "CI * ((?th - 1) * S + K) * ((?tw - 1) * S + K) \<le> INPUT_TILE_SIZE ts"
    using fit_in by simp
  note r = ic_tile_loop_acc [OF cfgok(1,2,3,4) [unfolded S_def K_def T_def] tile(1,2,3,4) [unfolded T_def]
      ow1(1,2) fit_in' [unfolded CI_def S_def K_def] fit_w [unfolded CI_def K_def] b1 a1,
      of oc_t oh_t ow_t, folded st2_def]
  show "buffers_ok ts st'"
    using r(1) unfolding st' buffers_ok_def by simp
  show "status st' = status st"
    using r(3) unfolding st' st1_def by simp
  have o2: "output_fm st2 = output_fm st" using r(2) unfolding st1_def by simp
  have le: "oh_start \<le> oh_end" "ow_start \<le> ow_end" using tile ow1 by simp_all
  note wo = write_output_fill [OF tile(1) le tile(5,6) ow0 ow1(3), of cfg bn_scale bn_shift oc_start
      "acc_tile st2" "output_fm st2"]
  show "output_fm st' (oc * OH * OW + oh * OW + ow)
              = conv_direct_out input_fm weights bn_scale bn_shift cfg oc oh ow"
    if g: "oc_start \<le> oc" "oc < oc_end" "oh_start \<le> oh" "oh < oh_end" "ow_start \<le> ow" "ow < ow_end"
    for oc oh ow
  proof -
    have l: "0 \<le> oc - oc_start \<and> oc - oc_start < ?oc \<and> 0 \<le> oh - oh_start \<and> oh - oh_start < ?th
        \<and> 0 \<le> ow - ow_start \<and> ow - ow_start < ?tw"
      using g by simp
    have "output_fm st' ((oc_start + (oc - oc_start)) * OH * OW + (oh_start + (oh - oh_start)) * OW
            + (ow_start + (ow - ow_start)))
        = bn_act cfg (buf_read (acc_tile st2) ((oc - oc_start) * ?th * ?tw + (oh - oh_start) * ?tw + (ow - ow_start)))
                    (if layer_type cfg \<noteq> 2 then bn_scale (oc_start + (oc - oc_start)) else 256)
                    (if layer_type cfg \<noteq> 2 then bn_shift (oc_start + (oc - oc_start)) else 0)"
      unfolding st' using wo [THEN conjunct1, rule_format, OF l] by simp
    moreover have "buf_read (acc_tile st2) ((oc - oc_start) * ?th * ?tw + (oh - oh_start) * ?tw + (ow - ow_start))
        = conv_mac_range input_fm weights cfg (oc_start + (oc - oc_start)) (oh_start + (oh - oh_start))
            (ow_start + (ow - ow_start)) 0 (in_channels cfg) 0"
      using r(4) l unfolding acc_holds_def by blast
    ultimately show ?thesis
      by (simp add: conv_direct_out_def conv_direct_acc_def)
  qed
  show "output_fm st' j = output_fm st j"
    if ne: "\<And>oc oh ow. oc_start \<le> oc \<Longrightarrow> oc < oc_end \<Longrightarrow> oh_start \<le> oh \<Longrightarrow> oh < oh_end
          \<Longrightarrow> ow_start \<le> ow \<Longrightarrow> ow < ow_end \<Longrightarrow> oc * OH * OW + oh * OW + ow \<noteq> j" for j
  proof -
    have "\<forall>oc oh ow. 0 \<le> oc \<and> oc < ?oc \<and> 0 \<le> oh \<and> oh < ?th \<and> 0 \<le> ow \<and> ow < ?tw
                  \<longrightarrow> (oc_start + oc) * OH * OW + (oh_start + oh) * OW + (ow_start + ow) \<noteq> j"
      using ne by simp
    then have "write_output cfg bn_scale bn_shift oc_start ?oc oh_start oh_end ow_start ow_end OH OW
        (acc_tile st2) (output_fm st2) j = output_fm st2 j"
      using wo [THEN conjunct2, rule_format, of j] by blast
    then show ?thesis unfolding st' o2 by simp
  qed
qed

section \<open>The tile loops\<close>

lemma for_loop_point:
  assumes k: "lo \<le> k" "k < hi" and inv0: "I s"
    and pres: "\<And>i s. lo \<le> i \<Longrightarrow> i < hi \<Longrightarrow> I s \<Longrightarrow> I (body i s)"
    and frame: "\<And>i s. lo \<le> i \<Longrightarrow> i < hi \<Longrightarrow> i \<noteq> k \<Longrightarrow> I s \<Longrightarrow> get (body i s) = get s"
    and hit: "\<And>s. I s \<Longrightarrow> get (body k s) = v"
  shows "I (for_loop lo hi body s) \<and> get (for_loop lo hi body s) = v"
proof -
  define s1 where "s1 = for_loop lo k body s"
  have i1: "I s1"
    unfolding s1_def by (rule for_loop_pres [where P = I, OF inv0]) (use pres k in simp)
  define s2 where "s2 = body k s1"
  have i2: "I s2 \<and> get s2 = v"
    unfolding s2_def using pres [OF k i1] hit [OF i1] by simp
  have "for_loop lo hi body s = for_loop k hi body s1"
    unfolding s1_def using k by (intro for_loop_split) simp_all
  also have "\<dots> = for_loop (k + 1) hi body s2"
    unfolding s2_def using k by (intro for_loop_cons) simp_all
  finally have e: "for_loop lo hi body s = for_loop (k + 1) hi body s2" .
  show ?thesis
    unfolding e
  proof (rule for_loop_pres [where P = "\<lambda>s. I s \<and> get s = v", OF i2])
    fix i t assume "k + 1 \<le> i" "i < hi" "I t \<and> get t = v"
    then show "I (body i t) \<and> get (body i t) = v"
      using pres [of i t] frame [of i t] k by simp
  qed
qed

lemma tile_bounds:
  fixes n T t :: int
  assumes "0 < T" "0 \<le> t" "t * T < n"
  defines "e \<equiv> (if t * T + T > n then n else t * T + T)"
  shows "0 \<le> t * T" "1 \<le> e - t * T" "e - t * T \<le> T" "e \<le> n" "e - t * T \<le> min T n"
proof -
  show "0 \<le> t * T" using assms by simp
  then show "1 \<le> e - t * T" "e - t * T \<le> T" "e \<le> n" "e - t * T \<le> min T n"
    using assms(1,3) unfolding e_def by (simp_all add: min_def)
qed

lemma tile_member:
  fixes n T t x :: int
  assumes "0 < T" "0 \<le> x" "x < n"
  shows "(t * T \<le> x \<and> x < (if t * T + T > n then n else t * T + T)) \<longleftrightarrow> t = x div T"
proof
  assume a: "t * T \<le> x \<and> x < (if t * T + T > n then n else t * T + T)"
  then have "x < t * T + T" by (simp split: if_splits)
  then show "t = x div T" using a assms by (intro tile_unique) simp_all
next
  assume t: "t = x div T"
  show "t * T \<le> x \<and> x < (if t * T + T > n then n else t * T + T)"
    unfolding t using tile_of_element(3,4) [OF assms(2,3,1)] by blast
qed

lemma for_loop3_point:
  assumes k: "0 \<le> k1" "k1 < n1" "0 \<le> k2" "k2 < n2" "0 \<le> k3" "k3 < n3" and inv0: "I s"
    and pres: "\<And>a b c s. 0 \<le> a \<Longrightarrow> a < n1 \<Longrightarrow> 0 \<le> b \<Longrightarrow> b < n2 \<Longrightarrow> 0 \<le> c \<Longrightarrow> c < n3
        \<Longrightarrow> I s \<Longrightarrow> I (body a b c s)"
    and frame: "\<And>a b c s. 0 \<le> a \<Longrightarrow> a < n1 \<Longrightarrow> 0 \<le> b \<Longrightarrow> b < n2 \<Longrightarrow> 0 \<le> c \<Longrightarrow> c < n3
        \<Longrightarrow> \<not> (a = k1 \<and> b = k2 \<and> c = k3) \<Longrightarrow> I s \<Longrightarrow> get (body a b c s) = get s"
    and hit: "\<And>s. I s \<Longrightarrow> get (body k1 k2 k3 s) = v"
  shows "I (for_loop 0 n1 (\<lambda>a. for_loop 0 n2 (\<lambda>b. for_loop 0 n3 (body a b))) s)
       \<and> get (for_loop 0 n1 (\<lambda>a. for_loop 0 n2 (\<lambda>b. for_loop 0 n3 (body a b))) s) = v"
proof -
  have p3: "I (for_loop 0 n3 (body a b) t)"
    if "0 \<le> a" "a < n1" "0 \<le> b" "b < n2" "I t" for a b t
    by (rule for_loop_pres [where P = I]) (use that pres in simp_all)
  have p2: "I (for_loop 0 n2 (\<lambda>b. for_loop 0 n3 (body a b)) t)"
    if "0 \<le> a" "a < n1" "I t" for a t
    by (rule for_loop_pres [where P = I]) (use that p3 in simp_all)
  have f3: "get (for_loop 0 n3 (body a b) t) = get t"
    if r: "0 \<le> a" "a < n1" "0 \<le> b" "b < n2" "\<not> (a = k1 \<and> b = k2)" "I t" for a b t
  proof -
    have "I (for_loop 0 n3 (body a b) t) \<and> get (for_loop 0 n3 (body a b) t) = get t"
    proof (rule for_loop_pres [where P = "\<lambda>u. I u \<and> get u = get t"])
      show "I t \<and> get t = get t" using r by simp
      fix i u assume "0 \<le> i" "i < n3" "I u \<and> get u = get t"
      then show "I (body a b i u) \<and> get (body a b i u) = get t"
        using pres [of a b i u] frame [of a b i u] r by auto
    qed
    then show ?thesis by simp
  qed
  have f2: "get (for_loop 0 n2 (\<lambda>b. for_loop 0 n3 (body a b)) t) = get t"
    if r: "0 \<le> a" "a < n1" "a \<noteq> k1" "I t" for a t
  proof -
    have "I (for_loop 0 n2 (\<lambda>b. for_loop 0 n3 (body a b)) t)
        \<and> get (for_loop 0 n2 (\<lambda>b. for_loop 0 n3 (body a b)) t) = get t"
    proof (rule for_loop_pres [where P = "\<lambda>u. I u \<and> get u = get t"])
      show "I t \<and> get t = get t" using r by simp
      fix i u assume "0 \<le> i" "i < n2" "I u \<and> get u = get t"
      then show "I (for_loop 0 n3 (body a i) u) \<and> get (for_loop 0 n3 (body a i) u) = get t"
        using p3 [of a i u] f3 [of a i u] r by auto
    qed
    then show ?thesis by simp
  qed
  have h3: "I (for_loop 0 n3 (body k1 k2) t) \<and> get (for_loop 0 n3 (body k1 k2) t) = v" if "I t" for t
  proof (rule for_loop_point [where I = I, OF k(5,6) that])
    show "I (body k1 k2 i u)" if "0 \<le> i" "i < n3" "I u" for i u
      using pres [OF k(1,2,3,4) that] .
    show "get (body k1 k2 i u) = get u" if "0 \<le> i" "i < n3" "i \<noteq> k3" "I u" for i u
      using frame [OF k(1,2,3,4) that(1,2) _ that(4)] that(3) by simp
    show "get (body k1 k2 k3 u) = v" if "I u" for u
      using hit [OF that] .
  qed
  have h2: "I (for_loop 0 n2 (\<lambda>b. for_loop 0 n3 (body k1 b)) t)
      \<and> get (for_loop 0 n2 (\<lambda>b. for_loop 0 n3 (body k1 b)) t) = v" if "I t" for t
  proof (rule for_loop_point [where I = I, OF k(3,4) that])
    show "I (for_loop 0 n3 (body k1 i) u)" if "0 \<le> i" "i < n2" "I u" for i u
      using p3 [OF k(1,2) that] .
    show "get (for_loop 0 n3 (body k1 i) u) = get u" if "0 \<le> i" "i < n2" "i \<noteq> k2" "I u" for i u
      using f3 [OF k(1,2) that(1,2) _ that(4)] that(3) by simp
    show "get (for_loop 0 n3 (body k1 k2) u) = v" if "I u" for u
      using h3 [OF that] by simp
  qed
  show ?thesis
  proof (rule for_loop_point [where I = I, OF k(1,2) inv0])
    show "I (for_loop 0 n2 (\<lambda>b. for_loop 0 n3 (body i b)) u)" if "0 \<le> i" "i < n1" "I u" for i u
      using p2 [OF that] .
    show "get (for_loop 0 n2 (\<lambda>b. for_loop 0 n3 (body i b)) u) = get u"
      if "0 \<le> i" "i < n1" "i \<noteq> k1" "I u" for i u
      using f2 [OF that] .
    show "get (for_loop 0 n2 (\<lambda>b. for_loop 0 n3 (body k1 b)) u) = v" if "I u" for u
      using h2 [OF that] by simp
  qed
qed

lemma conv_tiles_result:
  fixes ts :: tile_sizes and cfg :: layer_config and input_fm weights bn_scale bn_shift :: ddr
    and st :: engine
  defines "OH \<equiv> layer_out_height cfg" and "OW \<equiv> layer_out_width cfg"
  assumes cfgok: "config_ok cfg" and res: "resource_ok ts cfg" and bufs: "buffers_ok ts st"
    and tgt: "0 \<le> oc" "oc < out_channels cfg" "0 \<le> oh" "oh < OH" "0 \<le> ow" "ow < OW"
  defines "st' \<equiv> conv_tiles ts input_fm weights bn_scale bn_shift cfg OH OW st"
  shows "buffers_ok ts st'" and "status st' = status st"
    and "output_fm st' (oc * OH * OW + oh * OW + ow)
           = conv_direct_out input_fm weights bn_scale bn_shift cfg oc oh ow"
proof -
  let ?T = "TILE_CH ts" and ?TH = "TILE_H ts" and ?TW = "TILE_W ts"
  let ?OC = "out_channels cfg" and ?S = "stride cfg" and ?K = "kernel_size cfg"
  let ?CI = "min (TILE_CH ts) (in_channels cfg)"
  let ?nc = "(?OC + ?T - 1) div ?T" and ?nh = "(OH + ?TH - 1) div ?TH" and ?nw = "(OW + ?TW - 1) div ?TW"
  have c: "0 < ?S" "0 \<le> ?S" "0 \<le> ?K" "0 \<le> in_channels cfg"
    using cfgok by (simp_all add: config_ok_def)
  have r: "0 < ?TH" "0 < ?TW" "0 < ?T"
    "?CI * ((min ?TH OH - 1) * ?S + ?K) * ((min ?TW OW - 1) * ?S + ?K) \<le> INPUT_TILE_SIZE ts"
    "min ?T ?OC * ?CI * ?K * ?K \<le> WEIGHT_BUF_SIZE ts"
    using res unfolding resource_ok_def Let_def OH_def OW_def by simp_all
  have pos: "0 \<le> ?OC" "0 \<le> OH" "0 \<le> OW" using tgt by simp_all
  note tcc = tiles_count [OF pos(1) r(3)] and tch = tiles_count [OF pos(2) r(1)]
    and tcw = tiles_count [OF pos(3) r(2)]
  define oc_end where "oc_end a = (if a * ?T + ?T > ?OC then ?OC else a * ?T + ?T)" for a
  define oh_end where "oh_end b = (if b * ?TH + ?TH > OH then OH else b * ?TH + ?TH)" for b
  define ow_end where "ow_end c = (if c * ?TW + ?TW > OW then OW else c * ?TW + ?TW)" for c
  define body where "body a b = output_tile_pass ts input_fm weights bn_scale bn_shift cfg OH OW
       (cdiv (in_channels cfg + ?T - 1) ?T) a (a * ?T) (oc_end a) b (b * ?TH) (oh_end b)" for a b
  have st': "st' = for_loop 0 ?nc (\<lambda>a. for_loop 0 ?nh (\<lambda>b. for_loop 0 ?nw (body a b))) st"
    unfolding st'_def conv_tiles_def Let_def tcc(1) tch(1) tcw(1) body_def oc_end_def oh_end_def ..
  define I where "I = (\<lambda>s :: engine. buffers_ok ts s \<and> status s = status st)"
  define get where "get = (\<lambda>s :: engine. output_fm s (oc * OH * OW + oh * OW + ow))"
  have ci0: "0 \<le> ?CI" using c r by simp
  have tile: "buffers_ok ts (body a b c' s)" "status (body a b c' s) = status s"
      "\<And>x y z. a * ?T \<le> x \<Longrightarrow> x < oc_end a \<Longrightarrow> b * ?TH \<le> y \<Longrightarrow> y < oh_end b
          \<Longrightarrow> c' * ?TW \<le> z \<Longrightarrow> z < ow_end c'
          \<Longrightarrow> output_fm (body a b c' s) (x * OH * OW + y * OW + z)
              = conv_direct_out input_fm weights bn_scale bn_shift cfg x y z"
      "\<And>j. (\<And>x y z. a * ?T \<le> x \<Longrightarrow> x < oc_end a \<Longrightarrow> b * ?TH \<le> y \<Longrightarrow> y < oh_end b
          \<Longrightarrow> c' * ?TW \<le> z \<Longrightarrow> z < ow_end c' \<Longrightarrow> x * OH * OW + y * OW + z \<noteq> j)
          \<Longrightarrow> output_fm (body a b c' s) j = output_fm s j"
    if v: "0 \<le> a" "a < ?nc" "0 \<le> b" "b < ?nh" "0 \<le> c'" "c' < ?nw" and s: "buffers_ok ts s"
    for a b c' s
  proof -
    note ba = tile_bounds [OF r(3) v(1) tcc(4) [OF v(2)], folded oc_end_def]
    note bb = tile_bounds [OF r(1) v(3) tch(4) [OF v(4)], folded oh_end_def]
    have t1: "0 \<le> oc_end a - a * ?T" using ba by simp
    have "(oh_end b - b * ?TH - 1) * ?S \<le> (min ?TH OH - 1) * ?S"
      using bb c by (intro mult_right_mono) simp_all
    moreover have "0 \<le> (oh_end b - b * ?TH - 1) * ?S + ?K" using bb c by simp
    moreover have "1 \<le> min ?TW OW" using r tgt by simp
    then have "0 \<le> (min ?TW OW - 1) * ?S + ?K" using c by simp
    ultimately have "?CI * ((oh_end b - b * ?TH - 1) * ?S + ?K) * ((min ?TW OW - 1) * ?S + ?K)
        \<le> ?CI * ((min ?TH OH - 1) * ?S + ?K) * ((min ?TW OW - 1) * ?S + ?K)"
      using ci0 by (intro mult3_mono) simp_all
    then have fi: "?CI * ((oh_end b - b * ?TH - 1) * ?S + ?K) * ((min ?TW OW - 1) * ?S + ?K)
        \<le> INPUT_TILE_SIZE ts" using r(4) by simp
    have "(oc_end a - a * ?T) * ?CI * ?K * ?K \<le> min ?T ?OC * ?CI * ?K * ?K"
      using ba ci0 c by (intro mult4_mono) simp_all
    then have fw: "(oc_end a - a * ?T) * ?CI * ?K * ?K \<le> WEIGHT_BUF_SIZE ts" using r(5) by simp
    note otp = output_tile_pass_result [OF c(2,3) r(3) c(4) r(2) t1 ba(3) bb(2,3,1,4) v(5) tcw(4) [OF v(6)]
        fi fw s, where input_fm = input_fm and weights = weights and bn_scale = bn_scale
        and bn_shift = bn_shift and oc_t = a and oh_t = b, folded body_def ow_end_def]
    show "buffers_ok ts (body a b c' s)" by (rule otp(1))
    show "status (body a b c' s) = status s" by (rule otp(2))
    show "output_fm (body a b c' s) (x * OH * OW + y * OW + z)
              = conv_direct_out input_fm weights bn_scale bn_shift cfg x y z"
      if "a * ?T \<le> x" "x < oc_end a" "b * ?TH \<le> y" "y < oh_end b" "c' * ?TW \<le> z" "z < ow_end c'"
      for x y z
      using otp(3) [OF that] .
    show "output_fm (body a b c' s) j = output_fm s j"
      if "\<And>x y z. a * ?T \<le> x \<Longrightarrow> x < oc_end a \<Longrightarrow> b * ?TH \<le> y \<Longrightarrow> y < oh_end b
          \<Longrightarrow> c' * ?TW \<le> z \<Longrightarrow> z < ow_end c' \<Longrightarrow> x * OH * OW + y * OW + z \<noteq> j" for j
      by (rule otp(4)) (use that in blast)
  qed
  let ?k1 = "oc div ?T" and ?k2 = "oh div ?TH" and ?k3 = "ow div ?TW"
  note e1 = tile_of_element [OF tgt(1,2) r(3)] and e2 = tile_of_element [OF tgt(3,4) r(1)]
    and e3 = tile_of_element [OF tgt(5,6) r(2)]
  have "I (for_loop 0 ?nc (\<lambda>a. for_loop 0 ?nh (\<lambda>b. for_loop 0 ?nw (body a b))) st)
       \<and> get (for_loop 0 ?nc (\<lambda>a. for_loop 0 ?nh (\<lambda>b. for_loop 0 ?nw (body a b))) st)
           = conv_direct_out input_fm weights bn_scale bn_shift cfg oc oh ow"
  proof (rule for_loop3_point [where I = I and get = get and ?k1.0 = ?k1 and ?k2.0 = ?k2 and ?k3.0 = ?k3,
          OF e1(1,2) e2(1,2) e3(1,2)])
    show "I st" using bufs by (simp add: I_def)
  next
    fix a b c' s
    assume v: "0 \<le> a" "a < ?nc" "0 \<le> b" "b < ?nh" "0 \<le> c'" "c' < ?nw" and i: "I s"
    then show "I (body a b c' s)"
      using tile(1,2) [of a b c' s] by (simp add: I_def)
  next
    fix a b c' s
    assume v: "0 \<le> a" "a < ?nc" "0 \<le> b" "b < ?nh" "0 \<le> c'" "c' < ?nw"
      and nk: "\<not> (a = ?k1 \<and> b = ?k2 \<and> c' = ?k3)" and i: "I s"
    have s: "buffers_ok ts s" using i by (simp add: I_def)
    note bb = tile_bounds [OF r(1) v(3) tch(4) [OF v(4)], folded oh_end_def]
    note bc = tile_bounds [OF r(2) v(5) tcw(4) [OF v(6)], folded ow_end_def]
    show "get (body a b c' s) = get s"
      unfolding get_def
    proof (rule tile(4) [OF v s])
      fix x y z
      assume m: "a * ?T \<le> x" "x < oc_end a" "b * ?TH \<le> y" "y < oh_end b" "c' * ?TW \<le> z" "z < ow_end c'"
      show "x * OH * OW + y * OW + z \<noteq> oc * OH * OW + oh * OW + ow"
      proof
        assume eq: "x * OH * OW + y * OW + z = oc * OH * OW + oh * OW + ow"
        have yr: "0 \<le> y" "y < OH" "0 \<le> z" "z < OW" using m bb bc by simp_all
        from flat3_inj [OF yr tgt(3,4,5,6) eq] have xe: "x = oc" "y = oh" "z = ow" by simp_all
        have "a = ?k1"
          using tile_member [OF r(3) tgt(1,2), of a] m(1,2) unfolding xe oc_end_def by blast
        moreover have "b = ?k2"
          using tile_member [OF r(1) tgt(3,4), of b] m(3,4) unfolding xe oh_end_def by blast
        moreover have "c' = ?k3"
          using tile_member [OF r(2) tgt(5,6), of c'] m(5,6) unfolding xe ow_end_def by blast
        ultimately show False using nk by blast
      qed
    qed
  next
    fix s assume i: "I s"
    have s: "buffers_ok ts s" using i by (simp add: I_def)
    have m1: "?k1 * ?T \<le> oc \<and> oc < oc_end ?k1"
      using tile_member [OF r(3) tgt(1,2), of ?k1] unfolding oc_end_def by blast
    have m2: "?k2 * ?TH \<le> oh \<and> oh < oh_end ?k2"
      using tile_member [OF r(1) tgt(3,4), of ?k2] unfolding oh_end_def by blast
    have m3: "?k3 * ?TW \<le> ow \<and> ow < ow_end ?k3"
      using tile_member [OF r(2) tgt(5,6), of ?k3] unfolding ow_end_def by blast
    show "get (body ?k1 ?k2 ?k3 s) = conv_direct_out input_fm weights bn_scale bn_shift cfg oc oh ow"
      unfolding get_def using tile(3) [OF e1(1,2) e2(1,2) e3(1,2) s] m1 m2 m3 by blast
  qed
  then show "buffers_ok ts st'" and "status st' = status st"
    and "output_fm st' (oc * OH * OW + oh * OW + ow)
           = conv_direct_out input_fm weights bn_scale bn_shift cfg oc oh ow"
    unfolding st' I_def get_def by simp_all
qed

end
